theory Spec2Isabelle
  imports Complex_Main "HOL-Library.Sublist"
begin

section \<open>Python values used by the solver engine\<close>

text \<open>
  The engine is the class \<open>SolverEngine\<close> of \<open>02.07.py\<close>. Python strings are
  modelled as \<open>string\<close>, holding the UTF-8 bytes of the text. Every separator, prefix
  and keyword the engine looks for is ASCII, and an ASCII byte never occurs inside the
  encoding of another character, so prefix tests, containment tests and splitting agree
  with Python's. Bytes above 127 are treated as characters that are neither white space
  nor digits and have no case.

  A Python float is modelled by the exact value its decimal literal denotes, or one of
  the three special values; rounding to binary64 and overflow are not modelled.
\<close>

datatype error = ValueError | TypeError | KeyError | Z3Exception

datatype pyfloat = Fin rat | PInf | NInf | NaN

text \<open>The comparison \<open>a < b\<close> of two Python floats; every comparison with nan is false.\<close>

fun flt :: "pyfloat \<Rightarrow> pyfloat \<Rightarrow> bool" where
  "flt NaN _ = False"
| "flt _ NaN = False"
| "flt (Fin a) (Fin b) = (a < b)"
| "flt (Fin _) PInf = True"
| "flt (Fin _) NInf = False"
| "flt PInf _ = False"
| "flt NInf NInf = False"
| "flt NInf _ = True"


definition is_nan :: "pyfloat \<Rightarrow> bool" where
  "is_nan x = (x = NaN)"

subsection \<open>Strings\<close>

definition code :: "char \<Rightarrow> nat" where
  "code c = of_char c"

text \<open>\<open>str.isspace\<close> on one ASCII character, as \<open>str.strip()\<close> uses it.\<close>

definition py_isspace :: "char \<Rightarrow> bool" where
  "py_isspace c = ((9 \<le> code c \<and> code c \<le> 13) \<or> (28 \<le> code c \<and> code c \<le> 32))"

text \<open>C's \<open>isspace\<close>, which \<open>float()\<close> uses to trim its argument.\<close>

definition c_isspace :: "char \<Rightarrow> bool" where
  "c_isspace c = ((9 \<le> code c \<and> code c \<le> 13) \<or> code c = 32)"

definition strip_with :: "(char \<Rightarrow> bool) \<Rightarrow> string \<Rightarrow> string" where
  "strip_with sp s = rev (dropWhile sp (rev (dropWhile sp s)))"

definition py_strip :: "string \<Rightarrow> string" where
  "py_strip s = strip_with py_isspace s"

definition lower_char :: "char \<Rightarrow> char" where
  "lower_char c = (if 65 \<le> code c \<and> code c \<le> 90 then char_of (code c + 32) else c)"

definition py_lower :: "string \<Rightarrow> string" where
  "py_lower s = map lower_char s"

definition startswith :: "string \<Rightarrow> string \<Rightarrow> bool" where
  "startswith s p = prefix p s"

text \<open>\<open>sub in s\<close> for strings.\<close>

definition contains :: "string \<Rightarrow> string \<Rightarrow> bool" where
  "contains sub s = sublist sub s"

text \<open>
  \<open>s.split(sep)\<close> for a separator of one character: \<open>acc\<close> holds the current
  piece, reversed.
\<close>

fun split_acc :: "char \<Rightarrow> string \<Rightarrow> string \<Rightarrow> string list" where
  "split_acc sep acc [] = [rev acc]"
| "split_acc sep acc (c # cs) =
     (if c = sep then rev acc # split_acc sep [] cs else split_acc sep (c # acc) cs)"

definition split_char :: "char \<Rightarrow> string \<Rightarrow> string list" where
  "split_char sep s = split_acc sep [] s"

text \<open>\<open>cap_id.split("::")[0]\<close>: the text before the first \<open>::\<close>, or all of it.\<close>

fun before_colons :: "string \<Rightarrow> string" where
  "before_colons [] = []"
| "before_colons (c # cs) =
     (if prefix ''::'' (c # cs) then [] else c # before_colons cs)"

subsection \<open>The builtin float()\<close>

definition is_digit :: "char \<Rightarrow> bool" where
  "is_digit c = (48 \<le> code c \<and> code c \<le> 57)"

definition digits_val :: "string \<Rightarrow> nat" where
  "digits_val ds = foldl (\<lambda>n c. 10 * n + (code c - 48)) 0 ds"

text \<open>
  An underscore is accepted only between two digits; \<open>prev\<close> is the character before
  the current one, if any.
\<close>

fun underscores_ok :: "char option \<Rightarrow> string \<Rightarrow> bool" where
  "underscores_ok prev [] = (prev \<noteq> Some CHR ''_'')"
| "underscores_ok prev (c # cs) =
     (if c = CHR ''_''
      then (case prev of None \<Rightarrow> False | Some p \<Rightarrow> is_digit p) \<and> underscores_ok (Some c) cs
      else (prev = Some CHR ''_'' \<longrightarrow> is_digit c) \<and> underscores_ok (Some c) cs)"

text \<open>The exponent part: empty, or \<open>e\<close>/\<open>E\<close>, an optional sign and at least one digit.\<close>

definition parse_exponent :: "string \<Rightarrow> int option" where
  "parse_exponent r =
     (case r of
        [] \<Rightarrow> Some 0
      | c # r1 \<Rightarrow>
          if c = CHR ''e'' \<or> c = CHR ''E'' then
            (let neg = (r1 \<noteq> [] \<and> hd r1 = CHR ''-'');
                 ds = (if r1 \<noteq> [] \<and> (hd r1 = CHR ''-'' \<or> hd r1 = CHR ''+'') then tl r1 else r1)
             in if ds \<noteq> [] \<and> list_all is_digit ds
                then Some (if neg then - int (digits_val ds) else int (digits_val ds))
                else None)
          else None)"

definition scale10 :: "rat \<Rightarrow> int \<Rightarrow> rat" where
  "scale10 q e = (if 0 \<le> e then q * 10 ^ nat e else q / 10 ^ nat (- e))"

text \<open>An unsigned decimal number: digits, an optional point and digits, an exponent.\<close>

definition parse_decimal :: "string \<Rightarrow> rat option" where
  "parse_decimal b =
     (let ip = takeWhile is_digit b;
          r1 = dropWhile is_digit b;
          fp = (if r1 \<noteq> [] \<and> hd r1 = CHR ''.'' then takeWhile is_digit (tl r1) else []);
          r2 = (if r1 \<noteq> [] \<and> hd r1 = CHR ''.'' then dropWhile is_digit (tl r1) else r1)
      in if ip = [] \<and> fp = [] then None
         else (case parse_exponent r2 of
                 None \<Rightarrow> None
               | Some e \<Rightarrow>
                   Some (scale10 (of_nat (digits_val (ip @ fp)) / 10 ^ length fp) e)))"

text \<open>
  \<open>float(s)\<close> for a string: the argument is trimmed, underscores are checked and
  removed, a sign is read, and the rest is \<open>inf\<close>, \<open>infinity\<close>, \<open>nan\<close> (in any
  case) or a decimal number. Anything else raises \<open>ValueError\<close>.
\<close>

definition py_float :: "string \<Rightarrow> error + pyfloat" where
  "py_float s =
     (let t = strip_with c_isspace s in
      if \<not> underscores_ok None t then Inl ValueError
      else
        (let u = filter (\<lambda>c. c \<noteq> CHR ''_'') t;
             neg = (u \<noteq> [] \<and> hd u = CHR ''-'');
             b = (if u \<noteq> [] \<and> (hd u = CHR ''-'' \<or> hd u = CHR ''+'') then tl u else u)
         in if py_lower b = ''inf'' \<or> py_lower b = ''infinity''
            then Inr (if neg then NInf else PInf)
            else if py_lower b = ''nan'' then Inr NaN
            else (case parse_decimal b of
                    None \<Rightarrow> Inl ValueError
                  | Some q \<Rightarrow> Inr (Fin (if neg then - q else q)))))"

section \<open>Requirement strings\<close>

text \<open>
  \<open>parse_req\<close> returns the pair (low, high), each bound a float or \<open>None\<close>. In the
  range branch the two targets are filled from \<open>map(float, s.split('-'))\<close>: the pieces
  are converted from left to right, so the first piece that is no number raises, and
  more than two pieces raise \<open>ValueError\<close> once the third has been converted.
\<close>

type_synonym bounds = "pyfloat option \<times> pyfloat option"

definition unpack_two :: "string list \<Rightarrow> error + bounds" where
  "unpack_two ps =
     (case ps of
        p1 # p2 # rest \<Rightarrow>
          (case py_float p1 of
             Inl e \<Rightarrow> Inl e
           | Inr lo \<Rightarrow>
               (case py_float p2 of
                  Inl e \<Rightarrow> Inl e
                | Inr hi \<Rightarrow>
                    (case rest of
                       [] \<Rightarrow> Inr (Some lo, Some hi)
                     | p3 # _ \<Rightarrow> Inl ValueError)))
      | _ \<Rightarrow> Inl ValueError)"

definition parse_req :: "string \<Rightarrow> error + bounds" where
  "parse_req s0 =
     (let s = py_strip s0 in
      if startswith s ''>='' then
        (case py_float (drop 2 s) of Inl e \<Rightarrow> Inl e | Inr v \<Rightarrow> Inr (Some v, None))
      else if startswith s ''<='' then
        (case py_float (drop 2 s) of Inl e \<Rightarrow> Inl e | Inr v \<Rightarrow> Inr (None, Some v))
      else if CHR ''-'' \<in> set s then unpack_two (split_char CHR ''-'' s)
      else (case py_float s of Inl e \<Rightarrow> Inl e | Inr v \<Rightarrow> Inr (Some v, Some v)))"

section \<open>Dictionaries\<close>

text \<open>
  A Python \<open>dict\<close> is an association list in insertion order with distinct keys:
  assigning to a key that is present replaces its value in place, as Python does.
\<close>

fun dict_set :: "'k \<Rightarrow> 'v \<Rightarrow> ('k \<times> 'v) list \<Rightarrow> ('k \<times> 'v) list" where
  "dict_set k v [] = [(k, v)]"
| "dict_set k v ((k', v') # d) =
     (if k' = k then (k, v) # d else (k', v') # dict_set k v d)"

text \<open>\<open>d.get(k, dflt)\<close>.\<close>

definition dict_get :: "('k \<times> 'v) list \<Rightarrow> 'k \<Rightarrow> 'v \<Rightarrow> 'v" where
  "dict_get d k dflt = (case map_of d k of None \<Rightarrow> dflt | Some v \<Rightarrow> v)"

text \<open>A dict comprehension over a list of key/value pairs: later pairs overwrite.\<close>

definition dict_of :: "('k \<times> 'v) list \<Rightarrow> ('k \<times> 'v) list" where
  "dict_of kvs = foldl (\<lambda>d (k, v). dict_set k v d) [] kvs"

section \<open>Semantic hierarchy\<close>

type_synonym hierarchy = "(string \<times> string list) list"

text \<open>
  The inner \<open>for parent in parents\<close> loop of \<open>get_all_ancestor_types\<close>. The set
  \<open>ancestors\<close> is kept as a list in insertion order (Python fixes no order for it), and
  the stack \<open>to_process\<close> has its top at the head.
\<close>

fun add_parents :: "string list \<Rightarrow> string list \<times> string list \<Rightarrow> string list \<times> string list" where
  "add_parents [] (ancestors, to_process) = (ancestors, to_process)"
| "add_parents (parent # ps) (ancestors, to_process) =
     (if parent \<notin> set ancestors
      then add_parents ps (ancestors @ [parent], parent # to_process)
      else add_parents ps (ancestors, to_process))"

definition all_parents :: "hierarchy \<Rightarrow> string set" where
  "all_parents h = (\<Union>(k, ps) \<in> set h. set ps)"

lemma finite_all_parents: "finite (all_parents h)"
  by (auto simp: all_parents_def)

lemma dict_get_parents: "set (dict_get h c []) \<subseteq> all_parents h"
proof (cases "map_of h c")
  case None
  then show ?thesis by (simp add: dict_get_def)
next
  case (Some ps)
  then have "(c, ps) \<in> set h" by (rule map_of_SomeD)
  with Some show ?thesis by (auto simp: dict_get_def all_parents_def)
qed

lemma add_parents_fst: "set (fst (add_parents ps (a, t))) = set a \<union> set ps"
  by (induction ps arbitrary: a t) auto

lemma add_parents_snd: "set (snd (add_parents ps (a, t))) = set t \<union> (set ps - set a)"
  by (induction ps arbitrary: a t) auto

lemma add_parents_same: "set ps \<subseteq> set a \<Longrightarrow> add_parents ps (a, t) = (a, t)"
  by (induction ps arbitrary: a t) auto

text \<open>
  One round of the \<open>while\<close> loop either marks a parent that was not marked before, or
  leaves the marks alone and only pops the stack.
\<close>

lemma add_parents_measure:
  assumes eq: "add_parents (dict_get h c []) (a, t) = (a', t')"
  shows "card (all_parents h - set a') < card (all_parents h - set a) \<or>
         (a' = a \<and> t' = t)"
proof (cases "set (dict_get h c []) \<subseteq> set a")
  case True
  with eq show ?thesis by (simp add: add_parents_same)
next
  case False
  let ?ps = "dict_get h c []"
  have a': "set a' = set a \<union> set ?ps"
    using add_parents_fst[of ?ps a t] eq by simp
  from False obtain p where p: "p \<in> set ?ps" "p \<notin> set a" by auto
  with dict_get_parents[of h c] have "p \<in> all_parents h - set a" by auto
  moreover have "p \<notin> all_parents h - set a'" using p a' by auto
  moreover have "all_parents h - set a' \<subseteq> all_parents h - set a" using a' by auto
  ultimately have "all_parents h - set a' \<subset> all_parents h - set a" by auto
  then have "card (all_parents h - set a') < card (all_parents h - set a)"
    by (intro psubset_card_mono) (simp_all add: finite_all_parents)
  then show ?thesis by simp
qed

text \<open>The \<open>while to_process\<close> loop.\<close>

function ancestors_loop :: "hierarchy \<Rightarrow> string list \<Rightarrow> string list \<Rightarrow> string list" where
  "ancestors_loop h ancestors [] = ancestors"
| "ancestors_loop h ancestors (current # to_process) =
     (case add_parents (dict_get h current []) (ancestors, to_process) of
        (ancestors', to_process') \<Rightarrow> ancestors_loop h ancestors' to_process')"
  by pat_completeness auto
termination
  apply (relation "measures [\<lambda>(h, a, t). card (all_parents h - set a), \<lambda>(h, a, t). length t]")
   apply simp
  apply (drule sym)
  apply (drule add_parents_measure)
  apply auto
  done

definition get_all_ancestor_types :: "hierarchy \<Rightarrow> string \<Rightarrow> string list" where
  "get_all_ancestor_types h t = ancestors_loop h [t] [t]"

text \<open>The direct-parent relation of a hierarchy.\<close>

definition parent_rel :: "hierarchy \<Rightarrow> (string \<times> string) set" where
  "parent_rel h = {(c, p). p \<in> set (dict_get h c [])}"

section \<open>Capabilities\<close>

text \<open>
  The values a property bound can hold once the capability document is loaded.
  \<open>JNull\<close> is Python's \<open>None\<close>, which \<open>p.get(...)\<close> also returns for a missing key.
\<close>

datatype json =
    JNull
  | JBool bool
  | JInt int
  | JFloat pyfloat
  | JStr string
  | JArr "json list"
  | JObj "(string \<times> json) list"

text \<open>Python's truth value of a loaded JSON value.\<close>

fun truthy :: "json \<Rightarrow> bool" where
  "truthy JNull = False"
| "truthy (JBool b) = b"
| "truthy (JInt n) = (n \<noteq> 0)"
| "truthy (JFloat x) = (x \<noteq> Fin 0)"
| "truthy (JStr s) = (s \<noteq> [])"
| "truthy (JArr xs) = (xs \<noteq> [])"
| "truthy (JObj kvs) = (kvs \<noteq> [])"

text \<open>\<open>a or b\<close>.\<close>

definition py_or :: "json \<Rightarrow> json \<Rightarrow> json" where
  "py_or a b = (if truthy a then a else b)"

text \<open>
  \<open>float(v)\<close> for a loaded JSON value. An integer converts to its exact value; the
  \<open>OverflowError\<close> of an integer beyond the range of a float is not modelled.
\<close>

fun float_of_json :: "json \<Rightarrow> error + pyfloat" where
  "float_of_json JNull = Inl TypeError"
| "float_of_json (JBool b) = Inr (Fin (if b then 1 else 0))"
| "float_of_json (JInt n) = Inr (Fin (of_int n))"
| "float_of_json (JFloat x) = Inr x"
| "float_of_json (JStr s) = py_float s"
| "float_of_json (JArr xs) = Inl TypeError"
| "float_of_json (JObj kvs) = Inl TypeError"

text \<open>
  One entry of a capability's \<open>properties\<close> list. \<open>property_ID\<close> is an identifier
  string or absent; each bound is the loaded value of its field, \<open>JNull\<close> when the field
  is absent.
\<close>

record raw_property =
  property_ID :: "string option"
  valueMin :: json
  valueMax :: json
  value0 :: json
  value1 :: json

text \<open>
  One capability declaration of a resource: \<open>capability_name\<close> and \<open>capability_ID\<close>
  are read from \<open>e['capability'][0]\<close> (\<open>capability_ID\<close> is the empty string when absent),
  \<open>generalized_by\<close> is the empty list when absent or null.
\<close>

record raw_entry =
  capability_name :: string
  capability_ID :: string
  generalized_by :: "string list"
  properties :: "raw_property list"

type_synonym cap_data = "(string \<times> raw_entry list) list"

record capability =
  cap_id :: string
  cap_name :: string
  semantic_type :: string
  all_semantic_types :: "string list"
  props :: "(string \<times> bounds) list"

text \<open>\<open>None if v is None else float(v)\<close>.\<close>

definition opt_float :: "json \<Rightarrow> error + pyfloat option" where
  "opt_float v =
     (if v = JNull then Inr None
      else (case float_of_json v of Inl e \<Rightarrow> Inl e | Inr x \<Rightarrow> Inr (Some x)))"

text \<open>
  The range of one property as \<open>build_capabilities\<close> of \<open>02.07.py\<close> computes it inside
  its \<open>try\<close>: \<open>vmin = p.get('valueMin') or p.get('value0') or None\<close>, likewise
  \<open>vmax\<close>, then both are converted.
\<close>

definition property_range :: "raw_property \<Rightarrow> error + bounds" where
  "property_range p =
     (let vmin = py_or (py_or (valueMin p) (value0 p)) JNull;
          vmax = py_or (py_or (valueMax p) (value1 p)) JNull
      in case opt_float vmin of
           Inl e \<Rightarrow> Inl e
         | Inr lo \<Rightarrow> (case opt_float vmax of Inl e \<Rightarrow> Inl e | Inr hi \<Rightarrow> Inr (lo, hi)))"

text \<open>
  The same in \<open>05.06.py\<close>:
  \<open>vmin = p.get('valueMin') if p.get('valueMin') is not None else p.get('value0')\<close>.
\<close>

definition property_range_0506 :: "raw_property \<Rightarrow> error + bounds" where
  "property_range_0506 p =
     (let vmin = (if valueMin p \<noteq> JNull then valueMin p else value0 p);
          vmax = (if valueMax p \<noteq> JNull then valueMax p else value1 p)
      in case opt_float vmin of
           Inl e \<Rightarrow> Inl e
         | Inr lo \<Rightarrow> (case opt_float vmax of Inl e \<Rightarrow> Inl e | Inr hi \<Rightarrow> Inr (lo, hi)))"

text \<open>
  The loop over \<open>e.get('properties', [])\<close>: a property whose conversion raises is
  skipped by the bare \<open>except\<close>, one without a usable identifier is not stored.
\<close>

fun build_props :: "(string \<times> bounds) list \<Rightarrow> raw_property list \<Rightarrow> (string \<times> bounds) list" where
  "build_props acc [] = acc"
| "build_props acc (p # ps) =
     (case property_range p of
        Inl e \<Rightarrow> build_props acc ps
      | Inr r \<Rightarrow>
          (case property_ID p of
             None \<Rightarrow> build_props acc ps
           | Some pid \<Rightarrow>
               if pid \<noteq> [] then build_props (dict_set pid r acc) ps
               else build_props acc ps))"

text \<open>\<open>semantic_id.split('#')[-1] if '#' in semantic_id else name\<close>.\<close>

definition entry_semantic_type :: "raw_entry \<Rightarrow> string" where
  "entry_semantic_type e =
     (if CHR ''#'' \<in> set (capability_ID e)
      then last (split_char CHR ''#'' (capability_ID e))
      else capability_name e)"

text \<open>The pairs (resource, entry) in the order of the two nested loops.\<close>

definition entries_of :: "cap_data \<Rightarrow> (string \<times> raw_entry) list" where
  "entries_of cd = concat (map (\<lambda>(res, entries). map (Pair res) entries) cd)"

text \<open>First pass of \<open>build_capabilities\<close>: the hierarchy, last write wins.\<close>

definition build_hierarchy :: "cap_data \<Rightarrow> hierarchy" where
  "build_hierarchy cd =
     foldl (\<lambda>h (res, e). dict_set (entry_semantic_type e) (generalized_by e) h) []
       (entries_of cd)"

text \<open>Second pass: one capability per entry.\<close>

definition build_capability :: "hierarchy \<Rightarrow> string \<Rightarrow> raw_entry \<Rightarrow> capability" where
  "build_capability h res e =
     \<lparr> cap_id = res @ ''::'' @ capability_name e,
       cap_name = capability_name e,
       semantic_type = entry_semantic_type e,
       all_semantic_types = get_all_ancestor_types h (entry_semantic_type e),
       props = build_props [] (properties e) \<rparr>"

section \<open>Recipe steps and the constraint language\<close>

text \<open>
  A recipe step. \<open>Parameters\<close> holds the pairs (\<open>Key\<close>, \<open>ValueString\<close>);
  \<open>transport_mode\<close> is the entry \<open>_transport_mode\<close> that \<open>build_constraints\<close> writes.
\<close>

record step =
  ID :: string
  SemanticDescription :: string
  Parameters :: "(string \<times> string) list"
  transport_mode :: "string option"

text \<open>The z3 expressions the engine builds.\<close>

datatype z3 =
    BoolVal bool
  | Bool string
  | Or "z3 list"
  | And z3 z3
  | Not_z3 z3
  | Implies z3 z3

text \<open>The \<open>Optimize\<close> object: its assertions and the variables whose sum is maximized.\<close>

record optimize =
  assertions :: "z3 list"
  objective :: "z3 list option"

text \<open>The truth value of an expression under an assignment of the variables.\<close>

fun eval :: "(string \<Rightarrow> bool) \<Rightarrow> z3 \<Rightarrow> bool" where
  "eval \<sigma> (BoolVal b) = b"
| "eval \<sigma> (Bool v) = \<sigma> v"
| "eval \<sigma> (Or es) = list_ex (eval \<sigma>) es"
| "eval \<sigma> (And a b) = (eval \<sigma> a \<and> eval \<sigma> b)"
| "eval \<sigma> (Not_z3 a) = (\<not> eval \<sigma> a)"
| "eval \<sigma> (Implies a b) = (if eval \<sigma> a then eval \<sigma> b else True)"

text \<open>An assignment satisfies the model when every assertion is true under it.\<close>

definition satisfies :: "(string \<Rightarrow> bool) \<Rightarrow> optimize \<Rightarrow> bool" where
  "satisfies \<sigma> s = list_all (eval \<sigma>) (assertions s)"

text \<open>
  A model returned by z3: the values it gives to variables. The assignment it stands
  for makes exactly the variables it maps to true hold.
\<close>

type_synonym z3model = "(string \<times> bool) list"

definition assignment_of :: "z3model \<Rightarrow> string \<Rightarrow> bool" where
  "assignment_of m v = (map_of m v = Some True)"

datatype reason =
    SemanticMismatch string "string list"
  | MissingParameter string
  | MaxBelowDemand string pyfloat pyfloat
  | MinAboveDemand string pyfloat pyfloat

type_synonym invalid_mapping = "(string \<times> (string \<times> reason list) list) list"

record engine =
  cap_list :: "capability list"
  step_vars :: "((string \<times> string) \<times> z3) list"
  valid_mapping :: "(string \<times> string list) list"
  solver :: optimize
  step_ids :: "string list"
  assigned_resources :: "(string \<times> string) list"
  semantic_hierarchy :: hierarchy
  rec_data :: "step list"

definition TRANSPORT_TYPES :: "string list" where
  "TRANSPORT_TYPES = [''dosing'', ''transporting'', ''conveying'']"

definition TRANSPORT_MODES :: "string list" where
  "TRANSPORT_MODES = [''feed'', ''discharge'', ''transfer'']"

text \<open>The engine as \<open>__init__\<close> leaves it.\<close>

definition init_engine :: engine where
  "init_engine =
     \<lparr> cap_list = [], step_vars = [], valid_mapping = [],
       solver = \<lparr> assertions = [], objective = None \<rparr>,
       step_ids = [], assigned_resources = [], semantic_hierarchy = [], rec_data = [] \<rparr>"

definition build_capabilities :: "cap_data \<Rightarrow> engine \<Rightarrow> engine" where
  "build_capabilities cd e =
     (let h = build_hierarchy cd
      in e\<lparr> semantic_hierarchy := h,
             cap_list := map (\<lambda>(res, en). build_capability h res en) (entries_of cd) \<rparr>)"

text \<open>\<open>load_data\<close>, given the two loaded documents.\<close>

definition load_data :: "cap_data \<Rightarrow> step list \<Rightarrow> engine \<Rightarrow> engine" where
  "load_data cd steps e =
     (build_capabilities cd e)\<lparr> rec_data := steps, step_ids := map ID steps \<rparr>"

section \<open>Transport modes\<close>

text \<open>\<open>step.get('SemanticDescription', '').split('#')[-1].lower()\<close>.\<close>

definition step_type :: "step \<Rightarrow> string" where
  "step_type st = py_lower (last (split_char CHR ''#'' (SemanticDescription st)))"

text \<open>
  Stage 5 of \<open>determine_transport_mode\<close>, the material-flow analysis on the resources
  assigned by the last solve: \<open>None\<close> when it falls through to the default.
\<close>

definition flow_mode :: "string \<Rightarrow> string \<Rightarrow> string \<Rightarrow> string option" where
  "flow_mode current_resource prev_resource next_resource =
     (if current_resource \<noteq> [] \<and> prev_resource \<noteq> [] \<and> next_resource \<noteq> [] then
        (if current_resource \<noteq> prev_resource \<and> current_resource = next_resource
           then Some ''feed''
         else if current_resource = prev_resource \<and> current_resource \<noteq> next_resource
           then Some ''discharge''
         else if current_resource \<noteq> prev_resource \<and> current_resource \<noteq> next_resource
           then Some ''transfer''
         else None)
      else None)"

text \<open>\<open>self.assigned_resources.get(sid, "").split("::")[0]\<close>.\<close>

definition assigned_resource :: "engine \<Rightarrow> string \<Rightarrow> string" where
  "assigned_resource e sid = before_colons (dict_get (assigned_resources e) sid [])"

text \<open>Stage 2: the first parameter whose key is \<open>mode\<close>, if its value names a mode.\<close>

definition explicit_mode :: "step \<Rightarrow> string option" where
  "explicit_mode st =
     (case find (\<lambda>(k, v). py_lower k = ''mode'') (Parameters st) of
        None \<Rightarrow> None
      | Some (k, v) \<Rightarrow>
          if py_strip (py_lower v) \<in> set TRANSPORT_MODES
          then Some (py_strip (py_lower v)) else None)"

text \<open>Stage 3: hints in the step identifier.\<close>

definition id_hint :: "string \<Rightarrow> string option" where
  "id_hint sid =
     (let step_id_lower = py_lower sid
      in if contains ''feed'' step_id_lower \<or> contains ''inlet'' step_id_lower
            \<or> contains ''input'' step_id_lower then Some ''feed''
         else if contains ''discharge'' step_id_lower \<or> contains ''outlet'' step_id_lower
            \<or> contains ''output'' step_id_lower then Some ''discharge''
         else if contains ''transfer'' step_id_lower \<or> contains ''move'' step_id_lower
            \<or> contains ''convey'' step_id_lower \<or> contains ''dosing'' step_id_lower
           then Some ''transfer''
         else None)"

text \<open>Stage 4: hints in the parameter keys.\<close>

definition param_hint :: "step \<Rightarrow> string option" where
  "param_hint st =
     (let param_keys = map (\<lambda>(k, v). py_lower k) (Parameters st)
      in if list_ex (\<lambda>k. k \<in> set param_keys) [''feedrate'', ''inletflow'', ''feed_flow'']
           then Some ''feed''
         else if list_ex (\<lambda>k. k \<in> set param_keys)
              [''dischargerate'', ''outlettarget'', ''discharge_flow'']
           then Some ''discharge''
         else if list_ex (\<lambda>k. k \<in> set param_keys)
              [''transferdistance'', ''conveyorspeed'', ''transfer_time'']
           then Some ''transfer''
         else None)"

text \<open>
  \<open>determine_transport_mode(step, step_idx)\<close>: the stages in the order of the source,
  the first that returns a mode wins. \<open>len(self.step_ids) - 1\<close> is computed on
  integers.
\<close>

definition determine_transport_mode :: "engine \<Rightarrow> step \<Rightarrow> nat \<Rightarrow> string option" where
  "determine_transport_mode e st step_idx =
     (if step_idx = 0 \<or> int step_idx = int (length (step_ids e)) - 1 then None
      else if step_type st \<notin> set TRANSPORT_TYPES then None
      else case explicit_mode st of
        Some mode \<Rightarrow> Some mode
      | None \<Rightarrow>
         (case id_hint (ID st) of
            Some mode \<Rightarrow> Some mode
          | None \<Rightarrow>
             (case param_hint st of
                Some mode \<Rightarrow> Some mode
              | None \<Rightarrow>
                 (case (if 0 < step_idx \<and> int step_idx < int (length (step_ids e)) - 1
                        then flow_mode (assigned_resource e (ID st))
                               (assigned_resource e (step_ids e ! (step_idx - 1)))
                               (assigned_resource e (step_ids e ! (step_idx + 1)))
                        else None) of
                    Some mode \<Rightarrow> Some mode
                  | None \<Rightarrow> Some ''transfer''))))"

text \<open>The first loop of \<open>build_constraints\<close>: it writes \<open>_transport_mode\<close> on every step.\<close>

definition set_transport_modes :: "engine \<Rightarrow> step list \<Rightarrow> step list" where
  "set_transport_modes e steps =
     map (\<lambda>(step_idx, st).
            if 0 < step_idx \<and> int step_idx < int (length (step_ids e)) - 1
            then st\<lparr> transport_mode := determine_transport_mode e st step_idx \<rparr>
            else st\<lparr> transport_mode := None \<rparr>)
         (enumerate 0 steps)"

section \<open>Eligibility\<close>

text \<open>
  The two range tests of one parameter: the requirement is (lo, hi), the capability's
  range (c_lo, c_hi). A test is made only when both of its bounds are present.
\<close>

definition max_below :: "pyfloat option \<Rightarrow> pyfloat option \<Rightarrow> bool" where
  "max_below lo c_hi =
     (case lo of None \<Rightarrow> False
      | Some l \<Rightarrow> (case c_hi of None \<Rightarrow> False | Some ch \<Rightarrow> flt ch l))"

definition min_above :: "pyfloat option \<Rightarrow> pyfloat option \<Rightarrow> bool" where
  "min_above hi c_lo =
     (case hi of None \<Rightarrow> False
      | Some h \<Rightarrow> (case c_lo of None \<Rightarrow> False | Some cl \<Rightarrow> flt h cl))"

text \<open>The reasons one parameter appends, in the order of the two \<open>if\<close> statements.\<close>

definition param_reasons :: "string \<Rightarrow> bounds \<Rightarrow> bounds \<Rightarrow> reason list" where
  "param_reasons k req rng =
     (case req of (lo, hi) \<Rightarrow> case rng of (c_lo, c_hi) \<Rightarrow>
        (if max_below lo c_hi then [MaxBelowDemand k (the c_hi) (the lo)] else []) @
        (if min_above hi c_lo then [MinAboveDemand k (the c_lo) (the hi)] else []))"

text \<open>
  The loop \<open>for k, vstr in params.items()\<close>. An exception of \<open>parse_req\<close> leaves the
  loop; the lookup \<open>cap['props'][k]\<close> raises \<open>KeyError\<close> for a missing key.
\<close>

fun range_loop ::
  "(string \<times> bounds) list \<Rightarrow> reason list \<Rightarrow> (string \<times> string) list \<Rightarrow> error + reason list" where
  "range_loop cprops reasons [] = Inr reasons"
| "range_loop cprops reasons ((k, vstr) # items) =
     (case parse_req vstr of
        Inl err \<Rightarrow> Inl err
      | Inr req \<Rightarrow>
          (case map_of cprops k of
             None \<Rightarrow> Inl KeyError
           | Some rng \<Rightarrow> range_loop cprops (reasons @ param_reasons k req rng) items))"

text \<open>\<open>split('#')[-1] if '#' in desc else desc\<close>, as the second loop reads the type.\<close>

definition step_semantic :: "step \<Rightarrow> string" where
  "step_semantic st =
     (if CHR ''#'' \<in> set (SemanticDescription st)
      then last (split_char CHR ''#'' (SemanticDescription st))
      else SemanticDescription st)"

text \<open>Check 1: the step's type, in lower case, is among the capability's types.\<close>

definition semantic_match :: "step \<Rightarrow> capability \<Rightarrow> bool" where
  "semantic_match st cap =
     (py_lower (step_semantic st) \<in> set (map py_lower (all_semantic_types cap)))"

text \<open>Check 2: \<open>[k for k in params if k not in cap['props']]\<close>.\<close>

definition missing_params :: "(string \<times> string) list \<Rightarrow> capability \<Rightarrow> string list" where
  "missing_params params cap = filter (\<lambda>k. map_of (props cap) k = None) (map fst params)"

text \<open>The loop \<open>for cap in self.cap_list\<close> for one step, with its two accumulators.\<close>

fun caps_loop ::
  "step \<Rightarrow> (string \<times> string) list \<Rightarrow> string list \<Rightarrow> (string \<times> reason list) list
     \<Rightarrow> capability list \<Rightarrow> error + (string list \<times> (string \<times> reason list) list)" where
  "caps_loop st params valid invalid [] = Inr (valid, invalid)"
| "caps_loop st params valid invalid (cap # caps) =
     (if \<not> semantic_match st cap then
        caps_loop st params valid
          (dict_set (cap_id cap)
             [SemanticMismatch (step_semantic st) (all_semantic_types cap)] invalid) caps
      else if missing_params params cap \<noteq> [] then
        caps_loop st params valid
          (dict_set (cap_id cap) (map MissingParameter (missing_params params cap)) invalid) caps
      else
        (case range_loop (props cap) [] params of
           Inl err \<Rightarrow> Inl err
         | Inr reasons \<Rightarrow>
             if reasons \<noteq> [] then
               caps_loop st params valid (dict_set (cap_id cap) reasons invalid) caps
             else caps_loop st params (valid @ [cap_id cap]) invalid caps))"

text \<open>The eligibility record of one step: its valid list and its invalid dictionary.\<close>

definition eligibility ::
  "capability list \<Rightarrow> step \<Rightarrow> error + (string list \<times> (string \<times> reason list) list)" where
  "eligibility caps st = caps_loop st (dict_of (Parameters st)) [] [] caps"

section \<open>The constraint model\<close>

text \<open>The name of the variable \<open>Bool(f"{sid}__{cid}")\<close>.\<close>

definition var_name :: "string \<Rightarrow> string \<Rightarrow> string" where
  "var_name sid cid = sid @ ''__'' @ cid"

definition vars_for :: "string \<Rightarrow> string list \<Rightarrow> z3 list" where
  "vars_for sid valid = map (\<lambda>cid. Bool (var_name sid cid)) valid"

text \<open>The pairs (i, j) with i < j, in the order of the two nested \<open>range\<close> loops.\<close>

fun pairs :: "'a list \<Rightarrow> ('a \<times> 'a) list" where
  "pairs [] = []"
| "pairs (x # xs) = map (Pair x) xs @ pairs xs"

text \<open>What one step adds to the solver.\<close>

definition step_constraints :: "z3 list \<Rightarrow> z3 list" where
  "step_constraints vs =
     (if vs = [] then [BoolVal False]
      else Or vs # map (\<lambda>(a, b). Not_z3 (And a b)) (pairs vs))"

text \<open>The loop \<open>for cid in valid\<close> that records the variables in \<open>step_vars\<close>.\<close>

definition record_vars ::
  "string \<Rightarrow> string list \<Rightarrow> ((string \<times> string) \<times> z3) list \<Rightarrow> ((string \<times> string) \<times> z3) list" where
  "record_vars sid valid sv =
     foldl (\<lambda>d cid. dict_set (sid, cid) (Bool (var_name sid cid)) d) sv valid"

text \<open>The second loop of \<open>build_constraints\<close>, over the steps.\<close>

fun steps_loop :: "engine \<Rightarrow> invalid_mapping \<Rightarrow> step list \<Rightarrow> error + engine \<times> invalid_mapping" where
  "steps_loop e im [] = Inr (e, im)"
| "steps_loop e im (st # steps) =
     (case eligibility (cap_list e) st of
        Inl err \<Rightarrow> Inl err
      | Inr (valid, invalid) \<Rightarrow>
          steps_loop
            (e\<lparr> valid_mapping := dict_set (ID st) valid (valid_mapping e),
                step_vars := record_vars (ID st) valid (step_vars e),
                solver := (solver e)\<lparr> assertions :=
                  assertions (solver e) @ step_constraints (vars_for (ID st) valid) \<rparr> \<rparr>)
            (dict_set (ID st) invalid im) steps)"

section \<open>Transport continuity\<close>

text \<open>\<open>xs.index(x)\<close>; \<open>None\<close> stands for the \<open>ValueError\<close> of a missing element.\<close>

fun index_of :: "'a \<Rightarrow> 'a list \<Rightarrow> nat option" where
  "index_of x [] = None"
| "index_of x (y # ys) = (if x = y then Some 0 else map_option Suc (index_of x ys))"

definition add_assertion :: "z3 \<Rightarrow> engine \<Rightarrow> engine" where
  "add_assertion c e = e\<lparr> solver := (solver e)\<lparr> assertions := assertions (solver e) @ [c] \<rparr> \<rparr>"

text \<open>
  The variables of the neighbouring step \<open>nb\<close> whose capability satisfies \<open>keep\<close>, in
  the order of \<open>valid_mapping\<close>; \<open>self.step_vars[...]\<close> raises \<open>KeyError\<close> for a
  missing key.
\<close>

fun collect_vars ::
  "((string \<times> string) \<times> z3) list \<Rightarrow> string \<Rightarrow> (string \<Rightarrow> bool) \<Rightarrow> string list \<Rightarrow> error + z3 list" where
  "collect_vars sv nb keep [] = Inr []"
| "collect_vars sv nb keep (cid # cids) =
     (if keep cid then
        (case map_of sv (nb, cid) of
           None \<Rightarrow> Inl KeyError
         | Some v \<Rightarrow>
             (case collect_vars sv nb keep cids of
                Inl err \<Rightarrow> Inl err
              | Inr vs \<Rightarrow> Inr (v # vs)))
      else collect_vars sv nb keep cids)"

text \<open>
  The constraint that ties \<open>transport_var\<close> to the neighbouring step: an implication
  to the collected variables, or the negation of the variable when there is none.
\<close>

definition link :: "engine \<Rightarrow> z3 \<Rightarrow> string \<Rightarrow> (string \<Rightarrow> bool) \<Rightarrow> error + z3" where
  "link e transport_var nb keep =
     (case collect_vars (step_vars e) nb keep (dict_get (valid_mapping e) nb []) of
        Inl err \<Rightarrow> Inl err
      | Inr vs \<Rightarrow>
          Inr (if vs \<noteq> [] then Implies transport_var (Or vs) else Not_z3 transport_var))"

text \<open>
  The loop over the step's valid capabilities in \<open>_handle_feed_mode\<close> and
  \<open>_handle_discharge_mode\<close>: the neighbour must offer the same resource.
\<close>

fun same_resource_loop :: "engine \<Rightarrow> string \<Rightarrow> string \<Rightarrow> string list \<Rightarrow> error + engine" where
  "same_resource_loop e step_id nb [] = Inr e"
| "same_resource_loop e step_id nb (cid # cids) =
     (case map_of (step_vars e) (step_id, cid) of
        None \<Rightarrow> Inl KeyError
      | Some transport_var \<Rightarrow>
          (case link e transport_var nb (\<lambda>c. before_colons c = before_colons cid) of
             Inl err \<Rightarrow> Inl err
           | Inr c \<Rightarrow> same_resource_loop (add_assertion c e) step_id nb cids))"

definition handle_feed_mode :: "engine \<Rightarrow> string \<Rightarrow> string list \<Rightarrow> error + engine" where
  "handle_feed_mode e step_id all_step_ids =
     (case index_of step_id all_step_ids of
        None \<Rightarrow> Inl ValueError
      | Some idx \<Rightarrow>
          if idx = 0 then Inr e
          else same_resource_loop e step_id (all_step_ids ! (idx - 1))
                 (dict_get (valid_mapping e) step_id []))"

definition handle_discharge_mode :: "engine \<Rightarrow> string \<Rightarrow> string list \<Rightarrow> error + engine" where
  "handle_discharge_mode e step_id all_step_ids =
     (case index_of step_id all_step_ids of
        None \<Rightarrow> Inl ValueError
      | Some idx \<Rightarrow>
          if int idx = int (length all_step_ids) - 1 then Inr e
          else same_resource_loop e step_id (all_step_ids ! (idx + 1))
                 (dict_get (valid_mapping e) step_id []))"

text \<open>
  One side of \<open>_handle_transfer_mode\<close>: \<open>if prev_step:\<close> skips a neighbour that is
  \<open>None\<close> or the empty string.
\<close>

definition transfer_side :: "engine \<Rightarrow> z3 \<Rightarrow> string \<Rightarrow> string option \<Rightarrow> error + engine" where
  "transfer_side e transport_var resource nb_step =
     (case nb_step of
        None \<Rightarrow> Inr e
      | Some nb \<Rightarrow>
          if nb = [] then Inr e
          else (case link e transport_var nb (\<lambda>c. before_colons c \<noteq> resource) of
                  Inl err \<Rightarrow> Inl err
                | Inr c \<Rightarrow> Inr (add_assertion c e)))"

fun transfer_loop ::
  "engine \<Rightarrow> string \<Rightarrow> string option \<Rightarrow> string option \<Rightarrow> string list \<Rightarrow> error + engine" where
  "transfer_loop e step_id prev_step next_step [] = Inr e"
| "transfer_loop e step_id prev_step next_step (cid # cids) =
     (case map_of (step_vars e) (step_id, cid) of
        None \<Rightarrow> Inl KeyError
      | Some transport_var \<Rightarrow>
          (case transfer_side e transport_var (before_colons cid) prev_step of
             Inl err \<Rightarrow> Inl err
           | Inr e1 \<Rightarrow>
               (case transfer_side e1 transport_var (before_colons cid) next_step of
                  Inl err \<Rightarrow> Inl err
                | Inr e2 \<Rightarrow> transfer_loop e2 step_id prev_step next_step cids)))"

definition handle_transfer_mode :: "engine \<Rightarrow> string \<Rightarrow> string list \<Rightarrow> error + engine" where
  "handle_transfer_mode e step_id all_step_ids =
     (case index_of step_id all_step_ids of
        None \<Rightarrow> Inl ValueError
      | Some idx \<Rightarrow>
          (let prev_step = (if 0 < idx then Some (all_step_ids ! (idx - 1)) else None);
               next_step = (if int idx < int (length all_step_ids) - 1
                            then Some (all_step_ids ! (idx + 1)) else None)
           in transfer_loop e step_id prev_step next_step
                (dict_get (valid_mapping e) step_id [])))"

text \<open>The third loop of \<open>build_constraints\<close>.\<close>

fun transport_loop :: "engine \<Rightarrow> step list \<Rightarrow> error + engine" where
  "transport_loop e [] = Inr e"
| "transport_loop e (st # steps) =
     (if step_type st \<in> set TRANSPORT_TYPES \<and> transport_mode st \<noteq> None then
        (case (if transport_mode st = Some ''feed''
                 then handle_feed_mode e (ID st) (step_ids e)
               else if transport_mode st = Some ''discharge''
                 then handle_discharge_mode e (ID st) (step_ids e)
               else if transport_mode st = Some ''transfer''
                 then handle_transfer_mode e (ID st) (step_ids e)
               else Inr e) of
           Inl err \<Rightarrow> Inl err
         | Inr e' \<Rightarrow> transport_loop e' steps)
      else transport_loop e steps)"

text \<open>\<open>self.solver.maximize(...)\<close> over all recorded variables, if there is one.\<close>

definition set_objective :: "engine \<Rightarrow> engine" where
  "set_objective e =
     (let all_vars = map snd (step_vars e)
      in if all_vars \<noteq> [] then e\<lparr> solver := (solver e)\<lparr> objective := Some all_vars \<rparr> \<rparr>
         else e)"

text \<open>
  \<open>build_constraints\<close>: the solver and the two dictionaries are reset, then the three
  loops run. The result is the updated engine with the returned \<open>invalid_mapping\<close>, or
  the exception that left the method.
\<close>

definition build_constraints :: "engine \<Rightarrow> error + engine \<times> invalid_mapping" where
  "build_constraints e =
     (let e1 = e\<lparr> solver := \<lparr> assertions = [], objective = None \<rparr>,
                   step_vars := [], valid_mapping := [],
                   rec_data := set_transport_modes e (rec_data e) \<rparr>
      in case steps_loop e1 [] (rec_data e1) of
           Inl err \<Rightarrow> Inl err
         | Inr (e2, im) \<Rightarrow>
             (case transport_loop e2 (rec_data e2) of
                Inl err \<Rightarrow> Inl err
              | Inr e3 \<Rightarrow> Inr (set_objective e3, im)))"

section \<open>Solving\<close>

text \<open>
  \<open>model.evaluate(var)\<close> used as a condition: the value the model gives the variable;
  a variable the model does not mention stays symbolic and has no truth value.
  \<open>step_vars\<close> holds variables only.
\<close>

definition model_evaluate :: "z3model \<Rightarrow> z3 \<Rightarrow> error + bool" where
  "model_evaluate m v =
     (case v of
        Bool n \<Rightarrow> (case map_of m n of None \<Rightarrow> Inl Z3Exception | Some b \<Rightarrow> Inr b)
      | _ \<Rightarrow> Inl Z3Exception)"

text \<open>The inner loop of \<open>solve\<close>: the first valid capability whose variable is true.\<close>

fun first_selected ::
  "engine \<Rightarrow> z3model \<Rightarrow> string \<Rightarrow> string list \<Rightarrow> error + string option" where
  "first_selected e m step_id [] = Inr None"
| "first_selected e m step_id (cid # cids) =
     (case map_of (step_vars e) (step_id, cid) of
        None \<Rightarrow> Inl Z3Exception
      | Some var \<Rightarrow>
          (case model_evaluate m var of
             Inl err \<Rightarrow> Inl err
           | Inr b \<Rightarrow> if b then Inr (Some cid) else first_selected e m step_id cids))"

fun assign_loop ::
  "engine \<Rightarrow> z3model \<Rightarrow> (string \<times> string) list \<Rightarrow> string list \<Rightarrow> error + (string \<times> string) list" where
  "assign_loop e m assigned [] = Inr assigned"
| "assign_loop e m assigned (step_id # ids) =
     (case first_selected e m step_id (dict_get (valid_mapping e) step_id []) of
        Inl err \<Rightarrow> Inl err
      | Inr None \<Rightarrow> assign_loop e m assigned ids
      | Inr (Some cid) \<Rightarrow> assign_loop e m (dict_set step_id cid assigned) ids)"

text \<open>
  \<open>solve\<close>. The argument \<open>check\<close> stands for z3: it maps the solver to \<open>None\<close>
  (unsat) or to a model. \<open>if model:\<close> is false for a model without entries too.
\<close>

definition solve ::
  "(optimize \<Rightarrow> z3model option) \<Rightarrow> engine \<Rightarrow> error + engine \<times> z3model option" where
  "solve check e =
     (case check (solver e) of
        None \<Rightarrow> Inr (e, None)
      | Some m \<Rightarrow>
          if m \<noteq> [] then
            (case assign_loop e m [] (step_ids e) of
               Inl err \<Rightarrow> Inl err
             | Inr assigned \<Rightarrow> Inr (e\<lparr> assigned_resources := assigned \<rparr>, Some m))
          else Inr (e, Some m))"

text \<open>One cycle of \<open>SMTGuiApp.run\<close> after loading: build the model, then solve it.\<close>

definition cycle ::
  "(optimize \<Rightarrow> z3model option) \<Rightarrow> engine \<Rightarrow> error + engine \<times> invalid_mapping \<times> z3model option" where
  "cycle check e =
     (case build_constraints e of
        Inl err \<Rightarrow> Inl err
      | Inr (e1, im) \<Rightarrow>
          (case solve check e1 of
             Inl err \<Rightarrow> Inl err
           | Inr (e2, res) \<Rightarrow> Inr (e2, im, res)))"

subsection \<open>The solving oracle\<close>

fun vars_of :: "z3 \<Rightarrow> string list" where
  "vars_of (BoolVal b) = []"
| "vars_of (Bool v) = [v]"
| "vars_of (Or es) = concat (map vars_of es)"
| "vars_of (And a b) = vars_of a @ vars_of b"
| "vars_of (Not_z3 a) = vars_of a"
| "vars_of (Implies a b) = vars_of a @ vars_of b"

fun all_models :: "string list \<Rightarrow> z3model list" where
  "all_models [] = [[]]"
| "all_models (v # vs) =
     concat (map (\<lambda>m. [(v, True) # m, (v, False) # m]) (all_models vs))"

definition score :: "z3 list option \<Rightarrow> z3model \<Rightarrow> nat" where
  "score obj m =
     (case obj of None \<Rightarrow> 0 | Some vs \<Rightarrow> length (filter (eval (assignment_of m)) vs))"

fun best :: "z3 list option \<Rightarrow> z3model \<Rightarrow> z3model list \<Rightarrow> z3model" where
  "best obj m [] = m"
| "best obj m (m' # ms) = (if score obj m < score obj m' then best obj m' ms else best obj m ms)"

text \<open>
  Modelled from the spec: the solving oracle (z3's \<open>Optimize.check\<close> and \<open>model\<close>),
  which is not part of the repository. "Given a formula over boolean variables plus an
  optional linear objective, return SAT/UNSAT and, if SAT, a maximizing variable
  assignment." It tries every assignment of the variables that occur and keeps the
  first one with the greatest objective among those that satisfy all assertions.
\<close>

definition z3_check :: "optimize \<Rightarrow> z3model option" where
  "z3_check s =
     (let vs = remdups (concat (map vars_of
                 (assertions s @ (case objective s of None \<Rightarrow> [] | Some os \<Rightarrow> os))));
          sat = filter (\<lambda>m. satisfies (assignment_of m) s) (all_models vs)
      in case sat of [] \<Rightarrow> None | m # ms \<Rightarrow> Some (best (objective s) m ms))"

section \<open>Notions of the specification\<close>





text \<open>The valid list and the invalid dictionary of a step, empty when the check raises.\<close>

definition valid_of :: "capability list \<Rightarrow> step \<Rightarrow> string list" where
  "valid_of caps st = (case eligibility caps st of Inl err \<Rightarrow> [] | Inr (valid, invalid) \<Rightarrow> valid)"

definition invalid_of :: "capability list \<Rightarrow> step \<Rightarrow> (string \<times> reason list) list" where
  "invalid_of caps st = (case eligibility caps st of Inl err \<Rightarrow> [] | Inr (valid, invalid) \<Rightarrow> invalid)"

text \<open>The engine with further assertions added to its solver.\<close>

definition grow :: "z3 list \<Rightarrow> engine \<Rightarrow> engine" where
  "grow cs e = e\<lparr> solver := (solver e)\<lparr> assertions := assertions (solver e) @ cs \<rparr> \<rparr>"

text \<open>The engine and the invalid mapping that \<open>build_constraints\<close> returns.\<close>

definition built :: "engine \<Rightarrow> engine" where
  "built e = (case build_constraints e of Inl err \<Rightarrow> e | Inr (e', im) \<Rightarrow> e')"

definition built_invalid :: "engine \<Rightarrow> invalid_mapping" where
  "built_invalid e = (case build_constraints e of Inl err \<Rightarrow> [] | Inr (e', im) \<Rightarrow> im)"

text \<open>The outcome of a cycle: the model, if the cycle returned one; whether it returned.\<close>

definition result_of :: "error + engine \<times> invalid_mapping \<times> z3model option \<Rightarrow> z3model option" where
  "result_of r = (case r of Inl err \<Rightarrow> None | Inr (e, im, res) \<Rightarrow> res)"

definition returned :: "error + engine \<times> invalid_mapping \<times> z3model option \<Rightarrow> bool" where
  "returned r = (case r of Inl err \<Rightarrow> False | Inr x \<Rightarrow> True)"

text \<open>
  The first loop of \<open>build_constraints\<close>, run on this engine, gives every step the
  transport mode the step already carries.
\<close>

definition modes_kept :: "engine \<Rightarrow> bool" where
  "modes_kept e =
     (map transport_mode (set_transport_modes e (rec_data e)) = map transport_mode (rec_data e))"

section \<open>Example data\<close>

text \<open>The UTF-8 encodings of the signs U+2265 and U+2264.\<close>

definition utf8_ge :: string where
  "utf8_ge = [CHR 0xE2, CHR 0x89, CHR 0xA5]"

definition utf8_le :: string where
  "utf8_le = [CHR 0xE2, CHR 0x89, CHR 0xA4]"

text \<open>A hierarchy with a cycle: A and B name each other as parent, and B has parent C.\<close>

definition cyclic_hierarchy :: hierarchy where
  "cyclic_hierarchy = [(''A'', [''B'']), (''B'', [''A'', ''C''])]"

text \<open>Builders for documents: a property with \<open>valueMin\<close> and \<open>valueMax\<close>, a
  capability entry named \<open>n\<close> without \<open>capability_ID\<close>, and a step without mode.\<close>

definition mkprop :: "string \<Rightarrow> json \<Rightarrow> json \<Rightarrow> raw_property" where
  "mkprop pid lo hi =
     \<lparr> property_ID = Some pid, valueMin = lo, valueMax = hi, value0 = JNull, value1 = JNull \<rparr>"

definition mkentry :: "string \<Rightarrow> string list \<Rightarrow> raw_property list \<Rightarrow> raw_entry" where
  "mkentry n gen ps =
     \<lparr> capability_name = n, capability_ID = [], generalized_by = gen, properties = ps \<rparr>"

definition mkstep :: "string \<Rightarrow> string \<Rightarrow> (string \<times> string) list \<Rightarrow> step" where
  "mkstep i d ps = \<lparr> ID = i, SemanticDescription = d, Parameters = ps, transport_mode = None \<rparr>"

text \<open>
  The scenario of the specification: resource R1 offers \<open>Heat\<close>, generalized by
  \<open>HeatingProcess\<close>, with \<open>temp\<close> in [20, 100]; step S1 asks for \<open>HeatingProcess\<close>
  with a requirement on \<open>temp\<close>.
\<close>

definition heat_caps :: cap_data where
  "heat_caps =
     [(''R1'', [mkentry ''Heat'' [''HeatingProcess''] [mkprop ''temp'' (JInt 20) (JInt 100)]])]"


definition heat_step :: "string \<Rightarrow> step" where
  "heat_step v = mkstep ''S1'' ''HeatingProcess'' [(''temp'', v)]"


text \<open>A property whose \<open>valueMin\<close> is the number 0, with a given \<open>value0\<close>.\<close>

definition zero_min_property :: "json \<Rightarrow> raw_property" where
  "zero_min_property fallback =
     \<lparr> property_ID = Some ''temp'', valueMin = JInt 0, valueMax = JInt 100,
       value0 = fallback, value1 = JNull \<rparr>"

text \<open>
  A plant with two resources, and two recipes with the same step identifiers. Recipe A
  has no transport step; in recipe B the interior step S2 is a dosing step without any
  hint. \<open>engine_B\<close> is an engine that has run recipe A and then loaded recipe B.
\<close>

definition plant :: cap_data where
  "plant =
     [(''R1'', [mkentry ''Blend'' [] []]),
      (''R2'', [mkentry ''Mix'' [] [], mkentry ''Dosing'' [] [],
                mkentry ''Heat'' [] [], mkentry ''Cool'' [] []])]"

definition recipe_A :: "step list" where
  "recipe_A = [mkstep ''S1'' ''Blend'' [], mkstep ''S2'' ''Heat'' [], mkstep ''S3'' ''Cool'' []]"

definition recipe_B :: "step list" where
  "recipe_B = [mkstep ''S1'' ''Mix'' [], mkstep ''S2'' ''Dosing'' [], mkstep ''S3'' ''Cool'' []]"

definition engine_of :: "error + engine \<times> invalid_mapping \<times> z3model option \<Rightarrow> engine" where
  "engine_of r = (case r of Inl err \<Rightarrow> init_engine | Inr (e, im, res) \<Rightarrow> e)"

definition after_A :: engine where
  "after_A = engine_of (cycle z3_check (load_data plant recipe_A init_engine))"

definition engine_B :: engine where
  "engine_B = load_data plant recipe_B after_A"


text \<open>
  Two steps on the heating plant: S1 is covered by R1, S2 asks for at least 150 and is
  covered by nothing.
\<close>

definition two_heat_steps :: engine where
  "two_heat_steps =
     load_data heat_caps
       [mkstep ''S1'' ''HeatingProcess'' [(''temp'', ''50'')],
        mkstep ''S2'' ''HeatingProcess'' [(''temp'', ''>=150'')]] init_engine"

text \<open>Two resources that both cover S1, and the assignment that selects R1.\<close>

definition two_heaters :: engine where
  "two_heaters =
     load_data
       [(''R1'', [mkentry ''Heat'' [''HeatingProcess''] [mkprop ''temp'' (JInt 20) (JInt 100)]]),
        (''R2'', [mkentry ''Heat'' [''HeatingProcess''] [mkprop ''temp'' (JInt 0) (JInt 200)]])]
       [heat_step ''50''] init_engine"

definition choose_R1 :: "string \<Rightarrow> bool" where
  "choose_R1 v = (v = ''S1__R1::Heat'')"


text \<open>
  Two cycles in a row on \<open>engine_B\<close>, with nothing loaded in between, and the values
  they produce: the assertions built with S2 as a feed step and as a transfer step, the
  model that selects every capability, and the engine after a solve of recipe B.
\<close>

definition first_cycle :: "error + engine \<times> invalid_mapping \<times> z3model option" where
  "first_cycle = cycle z3_check engine_B"

definition second_cycle :: "error + engine \<times> invalid_mapping \<times> z3model option" where
  "second_cycle = cycle z3_check (engine_of first_cycle)"

definition feed_assertions :: "z3 list" where
  "feed_assertions =
     [Or [Bool ''S1__R2::Mix''], Or [Bool ''S2__R2::Dosing''], Or [Bool ''S3__R2::Cool''],
      Implies (Bool ''S2__R2::Dosing'') (Or [Bool ''S1__R2::Mix''])]"

definition transfer_assertions :: "z3 list" where
  "transfer_assertions =
     [Or [Bool ''S1__R2::Mix''], Or [Bool ''S2__R2::Dosing''], Or [Bool ''S3__R2::Cool''],
      Not_z3 (Bool ''S2__R2::Dosing''), Not_z3 (Bool ''S2__R2::Dosing'')]"

definition all_selected :: z3model where
  "all_selected = [(''S1__R2::Mix'', True), (''S2__R2::Dosing'', True), (''S3__R2::Cool'', True)]"

definition solved_B :: "z3 list \<Rightarrow> string \<Rightarrow> engine" where
  "solved_B cs mode =
     (load_data plant recipe_B init_engine)
       \<lparr> step_vars := [((''S1'', ''R2::Mix''), Bool ''S1__R2::Mix''),
                       ((''S2'', ''R2::Dosing''), Bool ''S2__R2::Dosing''),
                       ((''S3'', ''R2::Cool''), Bool ''S3__R2::Cool'')],
         valid_mapping := [(''S1'', [''R2::Mix'']), (''S2'', [''R2::Dosing'']),
                           (''S3'', [''R2::Cool''])],
         solver := \<lparr> assertions = cs,
                      objective = Some [Bool ''S1__R2::Mix'', Bool ''S2__R2::Dosing'',
                                        Bool ''S3__R2::Cool''] \<rparr>,
         assigned_resources := [(''S1'', ''R2::Mix''), (''S2'', ''R2::Dosing''),
                                (''S3'', ''R2::Cool'')],
         rec_data := [mkstep ''S1'' ''Mix'' [],
                      (mkstep ''S2'' ''Dosing'' [])\<lparr> transport_mode := Some mode \<rparr>,
                      mkstep ''S3'' ''Cool'' []] \<rparr>"

text \<open>
  Recipe B on a plant with one resource per step, loaded into a fresh engine; the model
  that selects every capability there, and the engine after the first cycle.
\<close>

definition three_resources :: cap_data where
  "three_resources =
     [(''R1'', [mkentry ''Mix'' [] []]), (''R2'', [mkentry ''Dosing'' [] []]),
      (''R3'', [mkentry ''Cool'' [] []])]"

definition fresh_dosing :: engine where
  "fresh_dosing = load_data three_resources recipe_B init_engine"

definition dosing_model :: z3model where
  "dosing_model = [(''S1__R1::Mix'', True), (''S2__R2::Dosing'', True), (''S3__R3::Cool'', True)]"

definition solved_dosing :: engine where
  "solved_dosing =
     (built fresh_dosing)
       \<lparr> assigned_resources := [(''S1'', ''R1::Mix''), (''S2'', ''R2::Dosing''),
                                (''S3'', ''R3::Cool'')] \<rparr>"

section \<open>Requirement parsing\<close>

lemma py_float_empty: "py_float [] = Inl ValueError"
  by (simp add: py_float_def strip_with_def parse_decimal_def py_lower_def)

lemma unpack_two_empty_first: "unpack_two ([] # ps) = Inl ValueError"
  by (cases ps) (simp_all add: unpack_two_def py_float_empty)

text \<open>
  C10. A requirement string that, once stripped, begins with \<open>-\<close> makes \<open>parse_req\<close>
  raise \<open>ValueError\<close>: it is neither a \<open>>=\<close> nor a \<open><=\<close> demand, it contains
  \<open>-\<close>, so it is split there, and the first piece is the empty string, which
  \<open>float\<close> rejects. This covers every literal of a negative value, such as \<open>-5\<close>, so
  no such string yields the pair (v, v).
\<close>

theorem parse_req_leading_minus_raises:
  assumes "py_strip s = CHR ''-'' # r"
  shows "parse_req s = Inl ValueError"
proof -
  have "split_char CHR ''-'' (CHR ''-'' # r) = [] # split_acc CHR ''-'' [] r"
    by (simp add: split_char_def)
  with assms show ?thesis
    by (simp add: parse_req_def startswith_def unpack_two_empty_first)
qed

theorem parse_req_leading_minus_raises_witness:
  "py_float '' -5'' = Inr (Fin (- 5)) \<and> parse_req '' -5'' = Inl ValueError"
proof -
  have h: "py_strip '' -5'' = CHR ''-'' # ''5''" by code_simp
  have f: "py_float '' -5'' = Inr (Fin (- 5))" by code_simp
  from parse_req_leading_minus_raises [OF h] f show ?thesis by simp
qed

text \<open>
  C5, as stated: the strings of the examples written with the signs U+2265 and U+2264
  are not parsed; \<open>parse_req\<close> raises \<open>ValueError\<close> on both, because it recognises
  the two-character prefixes \<open>>=\<close> and \<open><=\<close> only.
\<close>

theorem parse_req_unicode_signs_counterexample:
  "parse_req (utf8_ge @ ''5'') = Inl ValueError \<and>
   parse_req (utf8_le @ ''3.2'') = Inl ValueError"
  by code_simp

text \<open>
  C5, amended: with the ASCII prefixes, \<open>>=5\<close> gives (5, None), \<open><=3.2\<close> gives
  (None, 3.2), \<open>2-4\<close> gives (2, 4) and \<open>7\<close> gives (7, 7).
\<close>

theorem parse_req_examples:
  "parse_req ''>=5'' = Inr (Some (Fin 5), None) \<and>
   parse_req ''<=3.2'' = Inr (None, Some (Fin (32 / 10))) \<and>
   parse_req ''2-4'' = Inr (Some (Fin 2), Some (Fin 4)) \<and>
   parse_req ''7'' = Inr (Some (Fin 7), Some (Fin 7))"
  by code_simp

section \<open>Ancestor closure\<close>

text \<open>
  The loop invariant: the start type is marked, the stack holds marked types only, every
  marked type is reachable from the start, and the parents of a marked type that has
  left the stack are marked. When the stack is empty the marked types are exactly the
  types reachable from the start.
\<close>

lemma ancestors_loop_reach:
  assumes "t0 \<in> set a" "set t \<subseteq> set a" "set a \<subseteq> (parent_rel h)\<^sup>* `` {t0}"
    "\<forall>x \<in> set a - set t. parent_rel h `` {x} \<subseteq> set a"
  shows "set (ancestors_loop h a t) = (parent_rel h)\<^sup>* `` {t0}"
  using assms
proof (induction h a t rule: ancestors_loop.induct)
  case (1 h a)
  have "(parent_rel h)\<^sup>* `` {t0} \<subseteq> set a"
  proof
    fix y assume "y \<in> (parent_rel h)\<^sup>* `` {t0}"
    then have "(t0, y) \<in> (parent_rel h)\<^sup>*" by simp
    then show "y \<in> set a"
      by (induction rule: rtrancl_induct) (use 1 in auto)
  qed
  with 1 show ?case by auto
next
  case (2 h a c t)
  let ?ps = "dict_get h c []"
  obtain a' t' where eq: "add_parents ?ps (a, t) = (a', t')"
    by (cases "add_parents ?ps (a, t)")
  have a': "set a' = set a \<union> set ?ps"
    using add_parents_fst[of ?ps a t] eq by simp
  have t': "set t' = set t \<union> (set ?ps - set a)"
    using add_parents_snd[of ?ps a t] eq by simp
  have c: "c \<in> set a" using 2 by auto
  have "set (ancestors_loop h a' t') = (parent_rel h)\<^sup>* `` {t0}"
  proof (rule "2.IH"[OF eq[symmetric]])
    show "t0 \<in> set a'" using 2 a' by auto
    show "set t' \<subseteq> set a'" using 2 a' t' by auto
    show "set a' \<subseteq> (parent_rel h)\<^sup>* `` {t0}"
    proof
      fix y assume "y \<in> set a'"
      then consider "y \<in> set a" | "y \<in> set ?ps" using a' by auto
      then show "y \<in> (parent_rel h)\<^sup>* `` {t0}"
      proof cases
        case 1
        then show ?thesis using 2 by auto
      next
        case 2
        then have "(c, y) \<in> parent_rel h" by (simp add: parent_rel_def)
        moreover have "(t0, c) \<in> (parent_rel h)\<^sup>*" using c "2.prems" by auto
        ultimately show ?thesis by (auto intro: rtrancl_into_rtrancl)
      qed
    qed
    show "\<forall>x\<in>set a' - set t'. parent_rel h `` {x} \<subseteq> set a'"
    proof
      fix x assume x: "x \<in> set a' - set t'"
      then have xa: "x \<in> set a" using a' t' by auto
      show "parent_rel h `` {x} \<subseteq> set a'"
      proof (cases "x = c")
        case True
        then show ?thesis using a' by (auto simp: parent_rel_def)
      next
        case False
        with x xa t' have "x \<in> set a - set (c # t)" by auto
        with "2.prems" have "parent_rel h `` {x} \<subseteq> set a" by blast
        then show ?thesis using a' by auto
      qed
    qed
  qed
  then show ?case using eq by simp
qed

lemma ancestors_reach: "set (get_all_ancestor_types h t) = (parent_rel h)\<^sup>* `` {t}"
  unfolding get_all_ancestor_types_def
  by (rule ancestors_loop_reach) auto

text \<open>
  C4. For every hierarchy (a finite dictionary, cyclic or not) and every type T,
  \<open>get_all_ancestor_types\<close> returns a list that contains T and is transitively closed:
  an ancestor of an ancestor of T is an ancestor of T. The function is total: its
  termination is proved above for every hierarchy, by the number of parent types not
  yet marked and the height of the stack.
\<close>

theorem ancestors_reflexive_transitive:
  "T \<in> set (get_all_ancestor_types h T) \<and>
   (\<forall>P G. P \<in> set (get_all_ancestor_types h T) \<longrightarrow>
          G \<in> set (get_all_ancestor_types h P) \<longrightarrow>
          G \<in> set (get_all_ancestor_types h T))"
  by (auto simp: ancestors_reach intro: rtrancl_trans)

theorem ancestors_reflexive_transitive_witness:
  "''A'' \<in> set (get_all_ancestor_types cyclic_hierarchy ''A'') \<and>
   ''B'' \<in> set (get_all_ancestor_types cyclic_hierarchy ''A'') \<and>
   ''C'' \<in> set (get_all_ancestor_types cyclic_hierarchy ''B'') \<and>
   ''C'' \<in> set (get_all_ancestor_types cyclic_hierarchy ''A'')"
proof -
  have b: "''B'' \<in> set (get_all_ancestor_types cyclic_hierarchy ''A'')" by code_simp
  have c: "''C'' \<in> set (get_all_ancestor_types cyclic_hierarchy ''B'')" by code_simp
  from ancestors_reflexive_transitive [of "''A''" cyclic_hierarchy] b c
  show ?thesis by blast
qed

section \<open>Range feasibility\<close>







section \<open>Capability ranges\<close>

text \<open>
  In \<open>05.06.py\<close> the bound is \<open>valueMin\<close> whenever that field is present, else
  \<open>value0\<close>, and likewise for the high bound.
\<close>

lemma property_range_0506_min:
  "property_range_0506 p = Inr (lo, hi) \<Longrightarrow>
   opt_float (if valueMin p \<noteq> JNull then valueMin p else value0 p) = Inr lo \<and>
   opt_float (if valueMax p \<noteq> JNull then valueMax p else value1 p) = Inr hi"
  by (auto simp: property_range_0506_def Let_def split: sum.splits)

text \<open>
  In \<open>02.07.py\<close> the same holds when both fields are truthy, and a property whose
  conversion raises is left out of the range map.
\<close>

lemma property_range_truthy:
  "truthy (valueMin p) \<Longrightarrow> truthy (valueMax p) \<Longrightarrow> property_range p = Inr (lo, hi) \<Longrightarrow>
   opt_float (valueMin p) = Inr lo \<and> opt_float (valueMax p) = Inr hi"
  by (auto simp: property_range_def py_or_def Let_def split: sum.splits)

lemma build_props_drops:
  "property_range p = Inl err \<Longrightarrow> build_props acc (p # ps) = build_props acc ps"
  by simp

text \<open>
  C7. In \<open>02.07.py\<close> a \<open>valueMin\<close> that is present but equal to the number 0 is
  not used: \<open>p.get('valueMin') or p.get('value0')\<close> takes \<open>value0\<close> instead, and
  without a \<open>value0\<close> the low bound is absent. The property is kept in the range map
  with that bound. \<open>05.06.py\<close> keeps the bound 0 on the same property.
\<close>

theorem property_range_zero_min:
  "property_range (zero_min_property (JInt 5)) = Inr (Some (Fin 5), Some (Fin 100)) \<and>
   property_range (zero_min_property JNull) = Inr (None, Some (Fin 100)) \<and>
   build_props [] [zero_min_property JNull] = [(''temp'', None, Some (Fin 100))] \<and>
   property_range_0506 (zero_min_property (JInt 5)) = Inr (Some (Fin 0), Some (Fin 100))"
  by code_simp

section \<open>Transport mode default\<close>




section \<open>The constraint model built for the steps\<close>

text \<open>The eligibility of a step does not read its transport mode.\<close>

lemma step_semantic_mode [simp]:
  "step_semantic (st\<lparr>transport_mode := m\<rparr>) = step_semantic st"
  by (simp add: step_semantic_def)

lemma semantic_match_mode [simp]:
  "semantic_match (st\<lparr>transport_mode := m\<rparr>) cap = semantic_match st cap"
  by (simp add: semantic_match_def)

lemma caps_loop_mode:
  "caps_loop (st\<lparr>transport_mode := m\<rparr>) ps v i caps = caps_loop st ps v i caps"
  by (induction caps arbitrary: v i) (simp_all split: sum.splits)

lemma eligibility_mode [simp]:
  "eligibility caps (st\<lparr>transport_mode := m\<rparr>) = eligibility caps st"
  by (simp add: eligibility_def caps_loop_mode)

text \<open>The transport handlers only add assertions to the solver.\<close>

lemma grow_Nil [simp]: "grow [] e = e"
  by (simp add: grow_def)

lemma grow_grow [simp]: "grow b (grow a e) = grow (a @ b) e"
  by (simp add: grow_def)

lemma add_assertion_grow: "add_assertion c e = grow [c] e"
  by (simp add: add_assertion_def grow_def)

lemma grow_fields [simp]:
  "cap_list (grow cs e) = cap_list e" "step_vars (grow cs e) = step_vars e"
  "valid_mapping (grow cs e) = valid_mapping e" "step_ids (grow cs e) = step_ids e"
  "assigned_resources (grow cs e) = assigned_resources e"
  "semantic_hierarchy (grow cs e) = semantic_hierarchy e" "rec_data (grow cs e) = rec_data e"
  "assertions (solver (grow cs e)) = assertions (solver e) @ cs"
  "objective (solver (grow cs e)) = objective (solver e)"
  by (simp_all add: grow_def)

lemma link_grow [simp]: "link (grow cs e) tv nb keep = link e tv nb keep"
  by (simp add: link_def)

lemma same_resource_loop_grow:
  "same_resource_loop e sid nb cids = Inr e' \<Longrightarrow> \<exists>cs. e' = grow cs e"
proof (induction e sid nb cids rule: same_resource_loop.induct)
  case (1 e step_id nb)
  then show ?case by (auto intro: exI[of _ "[]"])
next
  case (2 e step_id nb cid cids)
  from "2.prems" obtain tv where tv: "map_of (step_vars e) (step_id, cid) = Some tv"
    by (auto split: option.splits)
  from "2.prems" tv obtain c where
    c: "link e tv nb (\<lambda>c. before_colons c = before_colons cid) = Inr c"
    by (auto split: sum.splits)
  from "2.prems" tv c have "same_resource_loop (add_assertion c e) step_id nb cids = Inr e'"
    by simp
  from "2.IH"[OF tv c this] obtain cs where "e' = grow cs (add_assertion c e)" by blast
  then show ?case by (auto simp: add_assertion_grow)
qed

lemma transfer_side_grow:
  "transfer_side e tv r nb = Inr e' \<Longrightarrow> \<exists>cs. e' = grow cs e"
  by (auto simp: transfer_side_def add_assertion_grow split: option.splits if_splits sum.splits
           intro: exI[of _ "[]"])

lemma transfer_loop_grow:
  "transfer_loop e sid p n cids = Inr e' \<Longrightarrow> \<exists>cs. e' = grow cs e"
proof (induction e sid p n cids rule: transfer_loop.induct)
  case (1 e step_id prev_step next_step)
  then show ?case by (auto intro: exI[of _ "[]"])
next
  case (2 e step_id prev_step next_step cid cids)
  from "2.prems" obtain tv where tv: "map_of (step_vars e) (step_id, cid) = Some tv"
    by (auto split: option.splits)
  from "2.prems" tv obtain e1 where
    e1: "transfer_side e tv (before_colons cid) prev_step = Inr e1"
    by (auto split: sum.splits)
  from "2.prems" tv e1 obtain e2 where
    e2: "transfer_side e1 tv (before_colons cid) next_step = Inr e2"
    by (auto split: sum.splits)
  from "2.prems" tv e1 e2 have "transfer_loop e2 step_id prev_step next_step cids = Inr e'"
    by simp
  from "2.IH"[OF tv e1 e2 this] obtain cs where cs: "e' = grow cs e2" by blast
  from transfer_side_grow[OF e1] obtain c1 where c1: "e1 = grow c1 e" by blast
  from transfer_side_grow[OF e2] obtain c2 where c2: "e2 = grow c2 e1" by blast
  from cs c1 c2 show ?case by auto
qed

lemma handlers_grow:
  "handle_feed_mode e sid ids = Inr e' \<Longrightarrow> \<exists>cs. e' = grow cs e"
  "handle_discharge_mode e sid ids = Inr e' \<Longrightarrow> \<exists>cs. e' = grow cs e"
  "handle_transfer_mode e sid ids = Inr e' \<Longrightarrow> \<exists>cs. e' = grow cs e"
  by (auto simp: handle_feed_mode_def handle_discharge_mode_def handle_transfer_mode_def Let_def
           split: option.splits if_splits
           dest: same_resource_loop_grow transfer_loop_grow intro: exI[of _ "[]"])

lemma transport_loop_grow:
  "transport_loop e steps = Inr e' \<Longrightarrow> \<exists>cs. e' = grow cs e"
proof (induction e steps rule: transport_loop.induct)
  case (1 e)
  then show ?case by (auto intro: exI[of _ "[]"])
next
  case (2 e st steps)
  show ?case
  proof (cases "step_type st \<in> set TRANSPORT_TYPES \<and> transport_mode st \<noteq> None")
    case False
    with 2 show ?thesis by auto
  next
    case True
    let ?h = "(if transport_mode st = Some ''feed''
                 then handle_feed_mode e (ID st) (step_ids e)
               else if transport_mode st = Some ''discharge''
                 then handle_discharge_mode e (ID st) (step_ids e)
               else if transport_mode st = Some ''transfer''
                 then handle_transfer_mode e (ID st) (step_ids e)
               else Inr e)"
    from "2.prems" True obtain e1 where e1: "?h = Inr e1"
      by (cases ?h) auto
    from "2.prems" True e1 have tl: "transport_loop e1 steps = Inr e'" by simp
    have "\<exists>c1. e1 = grow c1 e"
    proof (cases "transport_mode st = Some ''feed'' \<or> transport_mode st = Some ''discharge''
        \<or> transport_mode st = Some ''transfer''")
      case True
      with e1 show ?thesis by (auto split: if_splits dest: handlers_grow)
    next
      case False
      with e1 have "e1 = grow [] e" by simp
      then show ?thesis ..
    qed
    then obtain c1 where c1: "e1 = grow c1 e" ..
    from "2.IH"(1)[OF True e1 tl] obtain cs where "e' = grow cs e1" by blast
    with c1 show ?thesis by auto
  qed
qed

text \<open>
  The second loop adds, for each step in turn, the constraints of the step's valid list.
\<close>

lemma steps_loop_assertions:
  "steps_loop e im steps = Inr (e', im') \<Longrightarrow>
   assertions (solver e') =
     assertions (solver e) @
     concat (map (\<lambda>st. step_constraints (vars_for (ID st) (valid_of (cap_list e) st))) steps)"
proof (induction e im steps rule: steps_loop.induct)
  case (1 e im)
  then show ?case by simp
next
  case (2 e im st steps)
  from "2.prems" obtain valid invalid where
    el: "eligibility (cap_list e) st = Inr (valid, invalid)"
    by (cases "eligibility (cap_list e) st") auto
  let ?e1 = "e\<lparr> valid_mapping := dict_set (ID st) valid (valid_mapping e),
                step_vars := record_vars (ID st) valid (step_vars e),
                solver := (solver e)\<lparr> assertions :=
                  assertions (solver e) @ step_constraints (vars_for (ID st) valid) \<rparr> \<rparr>"
  from "2.prems" el have "steps_loop ?e1 (dict_set (ID st) invalid im) steps = Inr (e', im')"
    by simp
  from "2.IH"[OF el refl this] el show ?case
    by (simp add: valid_of_def)
qed

lemma set_objective_assertions [simp]:
  "assertions (solver (set_objective e)) = assertions (solver e)"
  by (simp add: set_objective_def Let_def)

lemma map_set_transport_modes:
  assumes "\<And>st m. g (st\<lparr>transport_mode := m\<rparr>) = g st"
  shows "map g (set_transport_modes e steps) = map g steps"
proof -
  let ?f = "\<lambda>(step_idx, st).
            if 0 < step_idx \<and> int step_idx < int (length (step_ids e)) - 1
            then st\<lparr> transport_mode := determine_transport_mode e st step_idx \<rparr>
            else st\<lparr> transport_mode := None \<rparr>"
  have "g \<circ> ?f = g \<circ> snd"
    by (auto simp: fun_eq_iff assms)
  then have "map g (map ?f (enumerate 0 steps)) = map g (map snd (enumerate 0 steps))"
    by (simp only: map_map)
  then show ?thesis by (simp add: set_transport_modes_def)
qed

lemma build_constraints_assertions:
  assumes "build_constraints e = Inr (e', im)"
  shows "\<exists>cs. assertions (solver e') =
     concat (map (\<lambda>st. step_constraints (vars_for (ID st) (valid_of (cap_list e) st)))
       (rec_data e)) @ cs"
proof -
  let ?e1 = "e\<lparr> solver := \<lparr> assertions = [], objective = None \<rparr>,
                   step_vars := [], valid_mapping := [],
                   rec_data := set_transport_modes e (rec_data e) \<rparr>"
  let ?g = "\<lambda>st. step_constraints (vars_for (ID st) (valid_of (cap_list e) st))"
  from assms obtain e2 im2 where sl: "steps_loop ?e1 [] (rec_data ?e1) = Inr (e2, im2)"
    by (cases "steps_loop ?e1 [] (rec_data ?e1)") (auto simp: build_constraints_def Let_def)
  from assms sl obtain e3 where tl: "transport_loop e2 (rec_data e2) = Inr e3"
    and e': "e' = set_objective e3"
    by (cases "transport_loop e2 (rec_data e2)") (auto simp: build_constraints_def Let_def)
  from transport_loop_grow[OF tl] obtain cs where cs: "e3 = grow cs e2" by blast
  have "map ?g (set_transport_modes e (rec_data e)) = map ?g (rec_data e)"
    by (rule map_set_transport_modes) (simp add: valid_of_def)
  with steps_loop_assertions[OF sl]
  have "assertions (solver e2) = concat (map ?g (rec_data e))" by simp
  with cs e' show ?thesis by simp
qed

lemma step_constraints_in:
  assumes "build_constraints e = Inr (e', im)" "st \<in> set (rec_data e)"
    "eligibility (cap_list e) st = Inr (valid, invalid)"
  shows "set (step_constraints (vars_for (ID st) valid)) \<subseteq> set (assertions (solver e'))"
proof -
  from build_constraints_assertions[OF assms(1)] obtain cs where
    "assertions (solver e') =
     concat (map (\<lambda>st. step_constraints (vars_for (ID st) (valid_of (cap_list e) st)))
       (rec_data e)) @ cs" by blast
  moreover have "valid_of (cap_list e) st = valid" using assms(3) by (simp add: valid_of_def)
  ultimately show ?thesis using assms(2) by auto
qed

text \<open>A model returned by the oracle satisfies the assertions.\<close>

lemma best_in: "best obj m ms \<in> set (m # ms)"
  by (induction obj m ms rule: best.induct) auto

lemma z3_check_sound: "z3_check s = Some m \<Longrightarrow> satisfies (assignment_of m) s"
proof -
  assume a: "z3_check s = Some m"
  let ?vs = "remdups (concat (map vars_of
                 (assertions s @ (case objective s of None \<Rightarrow> [] | Some os \<Rightarrow> os))))"
  let ?sat = "filter (\<lambda>m. satisfies (assignment_of m) s) (all_models ?vs)"
  from a obtain m0 ms where sat: "?sat = m0 # ms" and m: "m = best (objective s) m0 ms"
    by (cases ?sat) (auto simp: z3_check_def Let_def)
  from best_in[of "objective s" m0 ms] m sat have "m \<in> set ?sat" by simp
  then show ?thesis by simp
qed

text \<open>
  C1. When \<open>build_constraints\<close> returns and some step of the recipe has an empty
  valid list, the solver holds the assertion \<open>False\<close>, so no assignment satisfies
  the model, whatever the other steps offer. Every oracle that only returns models
  satisfying the assertions then answers unsat, and \<open>solve\<close> returns no model and
  leaves the engine as it is; so does the oracle modelled here.
\<close>

theorem empty_valid_set_unsat:
  assumes "build_constraints e = Inr (e', im)"
    and "st \<in> set (rec_data e)"
    and "eligibility (cap_list e) st = Inr ([], invalid)"
  shows "BoolVal False \<in> set (assertions (solver e')) \<and>
         (\<forall>\<sigma>. \<not> satisfies \<sigma> (solver e')) \<and>
         (\<forall>check. (\<forall>m. check (solver e') = Some m \<longrightarrow> satisfies (assignment_of m) (solver e'))
            \<longrightarrow> solve check e' = Inr (e', None)) \<and>
         solve z3_check e' = Inr (e', None)"
proof -
  from step_constraints_in[OF assms]
  have f: "BoolVal False \<in> set (assertions (solver e'))"
    by (simp add: step_constraints_def vars_for_def)
  then have u: "\<not> satisfies \<sigma> (solver e')" for \<sigma>
    by (auto simp: satisfies_def list_all_iff intro!: bexI[of _ "BoolVal False"])
  have s: "solve check e' = Inr (e', None)"
    if "\<forall>m. check (solver e') = Some m \<longrightarrow> satisfies (assignment_of m) (solver e')" for check
  proof -
    from that u have "check (solver e') = None" by (cases "check (solver e')") auto
    then show ?thesis by (simp add: solve_def)
  qed
  have "solve z3_check e' = Inr (e', None)"
    by (rule s) (auto dest: z3_check_sound)
  with f u s show ?thesis by blast
qed

theorem empty_valid_set_unsat_witness:
  "eligibility (cap_list two_heat_steps) (rec_data two_heat_steps ! 0) = Inr ([''R1::Heat''], []) \<and>
   BoolVal False \<in> set (assertions (solver (built two_heat_steps))) \<and>
   \<not> satisfies (\<lambda>v. True) (solver (built two_heat_steps)) \<and>
   solve z3_check (built two_heat_steps) = Inr (built two_heat_steps, None)"
proof -
  have b: "build_constraints two_heat_steps = Inr (built two_heat_steps, built_invalid two_heat_steps)"
    by code_simp
  have s: "rec_data two_heat_steps ! 1 \<in> set (rec_data two_heat_steps)" by code_simp
  have v: "eligibility (cap_list two_heat_steps) (rec_data two_heat_steps ! 1) =
      Inr ([], [(''R1::Heat'', [MaxBelowDemand ''temp'' (Fin 100) (Fin 150)])])" by code_simp
  have c: "eligibility (cap_list two_heat_steps) (rec_data two_heat_steps ! 0) = Inr ([''R1::Heat''], [])"
    by code_simp
  from empty_valid_set_unsat [OF b s v] c show ?thesis by blast
qed

text \<open>Pairwise exclusion leaves at most one element true.\<close>

lemma pairs_exclusive_count:
  "\<forall>(a, b) \<in> set (pairs xs). \<not> (P a \<and> P b) \<Longrightarrow> length (filter P xs) \<le> 1"
proof (induction xs)
  case Nil
  then show ?case by simp
next
  case (Cons x xs)
  show ?case
  proof (cases "P x")
    case True
    with Cons.prems have "\<forall>b \<in> set xs. \<not> P b" by auto
    then have "filter P xs = []" by (simp add: filter_empty_conv)
    with True show ?thesis by simp
  next
    case False
    with Cons show ?thesis by auto
  qed
qed

lemma pairs_nth: "i < j \<Longrightarrow> j < length xs \<Longrightarrow> (xs ! i, xs ! j) \<in> set (pairs xs)"
proof (induction xs arbitrary: i j)
  case Nil
  then show ?case by simp
next
  case (Cons x xs)
  show ?case
  proof (cases i)
    case 0
    with Cons.prems show ?thesis by (cases j) auto
  next
    case (Suc i')
    with Cons.prems obtain j' where "j = Suc j'" "i' < j'" "j' < length xs"
      by (cases j) auto
    with Suc Cons.IH[of i' j'] show ?thesis by simp
  qed
qed

text \<open>
  C2. When \<open>build_constraints\<close> returns, every assignment that satisfies the model
  makes at most one of the variables created for a step true: no two positions of the
  step's variable list hold together.
\<close>

theorem mutual_exclusion:
  assumes "build_constraints e = Inr (e', im)"
    and "satisfies \<sigma> (solver e')"
    and "st \<in> set (rec_data e)"
    and "eligibility (cap_list e) st = Inr (valid, invalid)"
  shows "length (filter (eval \<sigma>) (vars_for (ID st) valid)) \<le> 1 \<and>
         (\<forall>i j. i < j \<and> j < length valid \<longrightarrow>
            \<not> (eval \<sigma> (vars_for (ID st) valid ! i) \<and> eval \<sigma> (vars_for (ID st) valid ! j)))"
proof -
  let ?vs = "vars_for (ID st) valid"
  from step_constraints_in[OF assms(1,3,4)] assms(2)
  have all: "\<forall>c \<in> set (step_constraints ?vs). eval \<sigma> c"
    by (auto simp: satisfies_def list_all_iff)
  have ex: "\<not> (eval \<sigma> a \<and> eval \<sigma> b)" if "(a, b) \<in> set (pairs ?vs)" for a b
  proof -
    from that have "?vs \<noteq> []" by auto
    with that have "Not_z3 (And a b) \<in> set (step_constraints ?vs)"
      by (force simp: step_constraints_def)
    with all have "eval \<sigma> (Not_z3 (And a b))" by blast
    then show ?thesis by simp
  qed
  then have "length (filter (eval \<sigma>) ?vs) \<le> 1"
    by (intro pairs_exclusive_count) auto
  moreover have "\<not> (eval \<sigma> (?vs ! i) \<and> eval \<sigma> (?vs ! j))" if "i < j" "j < length valid" for i j
    using ex[OF pairs_nth[of i j ?vs]] that by (simp add: vars_for_def)
  ultimately show ?thesis by blast
qed

theorem mutual_exclusion_witness:
  "satisfies choose_R1 (solver (built two_heaters)) \<and>
   eligibility (cap_list two_heaters) (heat_step ''50'') = Inr ([''R1::Heat'', ''R2::Heat''], []) \<and>
   eval choose_R1 (vars_for ''S1'' [''R1::Heat'', ''R2::Heat''] ! 0) \<and>
   \<not> eval choose_R1 (vars_for ''S1'' [''R1::Heat'', ''R2::Heat''] ! 1) \<and>
   length (filter (eval choose_R1) (vars_for ''S1'' [''R1::Heat'', ''R2::Heat''])) \<le> 1"
proof -
  have b: "build_constraints two_heaters = Inr (built two_heaters, built_invalid two_heaters)"
    by code_simp
  have s: "satisfies choose_R1 (solver (built two_heaters))" by code_simp
  have m: "heat_step ''50'' \<in> set (rec_data two_heaters)" by code_simp
  have v: "eligibility (cap_list two_heaters) (heat_step ''50'') =
      Inr ([''R1::Heat'', ''R2::Heat''], [])" by code_simp
  have i: "ID (heat_step ''50'') = ''S1''" by code_simp
  have t: "eval choose_R1 (vars_for ''S1'' [''R1::Heat'', ''R2::Heat''] ! 0)" by code_simp
  from mutual_exclusion [OF b s m v] s v i t show ?thesis by auto
qed

section \<open>Malformed requirement strings\<close>











lemma steps_loop_raises:
  "\<exists>st \<in> set steps. \<exists>e0. eligibility (cap_list e) st = Inl e0 \<Longrightarrow>
   \<exists>err. steps_loop e im steps = Inl err"
proof (induction e im steps rule: steps_loop.induct)
  case (1 e im)
  then show ?case by simp
next
  case (2 e im st steps)
  show ?case
  proof (cases "eligibility (cap_list e) st")
    case (Inl e0)
    then show ?thesis by simp
  next
    case (Inr r)
    obtain valid invalid where r: "r = (valid, invalid)" by (cases r)
    from "2.prems" Inr have "\<exists>st \<in> set steps. \<exists>e0. eligibility (cap_list e) st = Inl e0"
      by auto
    with "2.IH"[OF Inr[unfolded r] refl] Inr r show ?thesis by simp
  qed
qed




section \<open>Repeating a cycle\<close>

lemma steps_loop_fields:
  "steps_loop e im steps = Inr (e', im') \<Longrightarrow>
   cap_list e' = cap_list e \<and> step_ids e' = step_ids e \<and>
   assigned_resources e' = assigned_resources e \<and>
   semantic_hierarchy e' = semantic_hierarchy e \<and> rec_data e' = rec_data e \<and>
   objective (solver e') = objective (solver e)"
proof (induction e im steps rule: steps_loop.induct)
  case (1 e im)
  then show ?case by simp
next
  case (2 e im st steps)
  from "2.prems" obtain valid invalid where
    el: "eligibility (cap_list e) st = Inr (valid, invalid)"
    by (cases "eligibility (cap_list e) st") auto
  from "2.prems" el "2.IH"[OF el refl] show ?case by simp
qed

lemma steps_loop_maps:
  "steps_loop e im steps = Inr (e', im') \<Longrightarrow>
   valid_mapping e' =
     foldl (\<lambda>d (sid, v). dict_set sid v d) (valid_mapping e)
       (map (\<lambda>st. (ID st, valid_of (cap_list e) st)) steps) \<and>
   step_vars e' =
     foldl (\<lambda>d (sid, v). record_vars sid v d) (step_vars e)
       (map (\<lambda>st. (ID st, valid_of (cap_list e) st)) steps) \<and>
   im' =
     foldl (\<lambda>d (sid, i). dict_set sid i d) im
       (map (\<lambda>st. (ID st, invalid_of (cap_list e) st)) steps)"
proof (induction e im steps rule: steps_loop.induct)
  case (1 e im)
  then show ?case by simp
next
  case (2 e im st steps)
  from "2.prems" obtain valid invalid where
    el: "eligibility (cap_list e) st = Inr (valid, invalid)"
    by (cases "eligibility (cap_list e) st") auto
  from "2.prems" el "2.IH"[OF el refl] show ?case
    by (simp add: valid_of_def invalid_of_def)
qed

lemma set_objective_fields [simp]:
  "cap_list (set_objective e) = cap_list e" "step_ids (set_objective e) = step_ids e"
  "assigned_resources (set_objective e) = assigned_resources e"
  "semantic_hierarchy (set_objective e) = semantic_hierarchy e"
  "rec_data (set_objective e) = rec_data e" "valid_mapping (set_objective e) = valid_mapping e"
  "step_vars (set_objective e) = step_vars e"
  by (simp_all add: set_objective_def Let_def)

text \<open>What \<open>build_constraints\<close> returns, field by field.\<close>

lemma build_constraints_fields:
  assumes "build_constraints e = Inr (eb, im)"
  shows "cap_list eb = cap_list e" "step_ids eb = step_ids e"
    "assigned_resources eb = assigned_resources e"
    "semantic_hierarchy eb = semantic_hierarchy e"
    "rec_data eb = set_transport_modes e (rec_data e)"
    "valid_mapping eb =
       foldl (\<lambda>d (sid, v). dict_set sid v d) []
         (map (\<lambda>st. (ID st, valid_of (cap_list e) st)) (rec_data e))"
    "step_vars eb =
       foldl (\<lambda>d (sid, v). record_vars sid v d) []
         (map (\<lambda>st. (ID st, valid_of (cap_list e) st)) (rec_data e))"
    "im =
       foldl (\<lambda>d (sid, i). dict_set sid i d) []
         (map (\<lambda>st. (ID st, invalid_of (cap_list e) st)) (rec_data e))"
proof -
  let ?e1 = "e\<lparr> solver := \<lparr> assertions = [], objective = None \<rparr>,
                   step_vars := [], valid_mapping := [],
                   rec_data := set_transport_modes e (rec_data e) \<rparr>"
  from assms obtain e2 where sl: "steps_loop ?e1 [] (rec_data ?e1) = Inr (e2, im)"
    by (cases "steps_loop ?e1 [] (rec_data ?e1)")
       (auto simp: build_constraints_def Let_def split: sum.splits)
  from assms sl obtain e3 where tl: "transport_loop e2 (rec_data e2) = Inr e3"
    and eb: "eb = set_objective e3"
    by (cases "transport_loop e2 (rec_data e2)") (auto simp: build_constraints_def Let_def)
  from transport_loop_grow[OF tl] obtain cs where cs: "e3 = grow cs e2" by blast
  note f = steps_loop_fields[OF sl] and m = steps_loop_maps[OF sl]
  have v: "map (\<lambda>st. (ID st, valid_of (cap_list e) st)) (set_transport_modes e (rec_data e)) =
        map (\<lambda>st. (ID st, valid_of (cap_list e) st)) (rec_data e)"
    by (rule map_set_transport_modes) (simp add: valid_of_def)
  have i: "map (\<lambda>st. (ID st, invalid_of (cap_list e) st)) (set_transport_modes e (rec_data e)) =
        map (\<lambda>st. (ID st, invalid_of (cap_list e) st)) (rec_data e)"
    by (rule map_set_transport_modes) (simp add: invalid_of_def)
  from f eb cs show "cap_list eb = cap_list e" "step_ids eb = step_ids e"
    "assigned_resources eb = assigned_resources e"
    "semantic_hierarchy eb = semantic_hierarchy e"
    "rec_data eb = set_transport_modes e (rec_data e)"
    by simp_all
  from m eb cs v show "valid_mapping eb =
       foldl (\<lambda>d (sid, v). dict_set sid v d) []
         (map (\<lambda>st. (ID st, valid_of (cap_list e) st)) (rec_data e))"
    "step_vars eb =
       foldl (\<lambda>d (sid, v). record_vars sid v d) []
         (map (\<lambda>st. (ID st, valid_of (cap_list e) st)) (rec_data e))"
    by simp_all
  from m i show "im =
       foldl (\<lambda>d (sid, i). dict_set sid i d) []
         (map (\<lambda>st. (ID st, invalid_of (cap_list e) st)) (rec_data e))"
    by simp
qed

text \<open>\<open>solve\<close> changes nothing but \<open>assigned_resources\<close>, and nothing on unsat.\<close>

lemma solve_changes:
  "solve check e = Inr (e', r) \<Longrightarrow>
   e' = e\<lparr> assigned_resources := assigned_resources e' \<rparr> \<and> r = check (solver e) \<and>
   (r = None \<longrightarrow> e' = e)"
  by (auto simp: solve_def split: option.splits if_splits sum.splits)

text \<open>
  The transport mode of a step is read from the step's identifier, type and parameters
  and from the engine's step identifiers and assigned resources only.
\<close>

lemma determine_transport_mode_cong:
  assumes "step_ids e' = step_ids e" "assigned_resources e' = assigned_resources e"
  shows "determine_transport_mode e' (st\<lparr>transport_mode := m\<rparr>) i =
         determine_transport_mode e st i"
proof -
  have 1: "step_type (st\<lparr>transport_mode := m\<rparr>) = step_type st"
    by (simp add: step_type_def)
  have 2: "explicit_mode (st\<lparr>transport_mode := m\<rparr>) = explicit_mode st"
    by (simp add: explicit_mode_def)
  have 3: "param_hint (st\<lparr>transport_mode := m\<rparr>) = param_hint st"
    by (simp add: param_hint_def)
  have 4: "ID (st\<lparr>transport_mode := m\<rparr>) = ID st"
    by simp
  have 5: "assigned_resource e' = assigned_resource e"
    by (simp add: assigned_resource_def fun_eq_iff assms)
  show ?thesis
    unfolding determine_transport_mode_def 1 2 3 4 5 assms(1) ..
qed

lemma set_transport_modes_idem:
  assumes "step_ids e' = step_ids e" "assigned_resources e' = assigned_resources e"
  shows "set_transport_modes e' (set_transport_modes e steps) = set_transport_modes e steps"
proof -
  let ?f = "\<lambda>e (step_idx, st).
            if 0 < step_idx \<and> int step_idx < int (length (step_ids e)) - 1
            then st\<lparr> transport_mode := determine_transport_mode e st step_idx \<rparr>
            else st\<lparr> transport_mode := None \<rparr>"
  have "map (?f e') (enumerate n (map (?f e) (enumerate n steps))) =
        map (?f e) (enumerate n steps)" for n
    by (induction steps arbitrary: n)
       (simp_all add: assms determine_transport_mode_cong[OF assms])
  then show ?thesis by (simp add: set_transport_modes_def)
qed

lemma build_constraints_cong:
  assumes "cap_list e' = cap_list e" "step_ids e' = step_ids e"
    "assigned_resources e' = assigned_resources e"
    "semantic_hierarchy e' = semantic_hierarchy e"
    "set_transport_modes e' (rec_data e') = set_transport_modes e (rec_data e)"
  shows "build_constraints e' = build_constraints e"
proof -
  have "e'\<lparr> solver := s, step_vars := [], valid_mapping := [], rec_data := r \<rparr> =
        e\<lparr> solver := s, step_vars := [], valid_mapping := [], rec_data := r \<rparr>" for s r
    using assms(1-4) by (intro engine.equality) simp_all
  with assms(5) show ?thesis by (simp add: build_constraints_def)
qed

text \<open>Building again on the engine \<open>build_constraints\<close> returned gives the same result.\<close>

lemma build_constraints_again:
  assumes "build_constraints e = Inr (eb, im)"
  shows "build_constraints eb = Inr (eb, im)"
proof -
  note f = build_constraints_fields[OF assms]
  have "set_transport_modes eb (rec_data eb) = set_transport_modes e (rec_data e)"
    using f(2,3,5) by (simp add: set_transport_modes_idem)
  from build_constraints_cong[OF f(1-4) this] assms show ?thesis by simp
qed

text \<open>The two cycles on \<open>engine_B\<close>, evaluated.\<close>

lemma first_cycle_value:
  "first_cycle =
     Inr (solved_B feed_assertions ''feed'',
          built_invalid (load_data plant recipe_B init_engine), Some all_selected)"
  by code_simp

lemma second_cycle_value:
  "cycle z3_check (solved_B feed_assertions ''feed'') =
     Inr (solved_B transfer_assertions ''transfer'',
          built_invalid (load_data plant recipe_B init_engine), None)"
  by code_simp

text \<open>
  The outcome of both cycles does not depend on the oracle: every assignment satisfying
  the first model selects all three capabilities, and none satisfies the second.
\<close>

lemma feed_assertions_model:
  "list_all (eval \<sigma>) feed_assertions \<Longrightarrow>
   \<sigma> ''S1__R2::Mix'' \<and> \<sigma> ''S2__R2::Dosing'' \<and> \<sigma> ''S3__R2::Cool''"
  by (simp add: feed_assertions_def)

lemma transfer_assertions_unsat: "\<not> list_all (eval \<sigma>) transfer_assertions"
  by (simp add: transfer_assertions_def)

text \<open>
  C9, as stated: an engine that has solved recipe A loads recipe B and runs two cycles
  on it. Both return. In the first, S2 is taken as a feed step from the resources
  recipe A left behind, and the model is satisfiable; the solve records the new
  resources, so in the second S2 is a transfer step, the assertions differ and the model
  is unsatisfiable.
\<close>

theorem repeated_cycle_counterexample:
  "returned first_cycle \<and> returned second_cycle \<and>
   map transport_mode (rec_data (engine_of first_cycle)) = [None, Some ''feed'', None] \<and>
   map transport_mode (rec_data (engine_of second_cycle)) = [None, Some ''transfer'', None] \<and>
   assertions (solver (engine_of first_cycle)) = feed_assertions \<and>
   assertions (solver (engine_of second_cycle)) = transfer_assertions \<and>
   feed_assertions \<noteq> transfer_assertions \<and>
   result_of first_cycle = Some all_selected \<and>
   result_of second_cycle = None"
proof -
  have e1: "engine_of first_cycle = solved_B feed_assertions ''feed''"
    by (simp add: first_cycle_value engine_of_def)
  have s2: "second_cycle =
     Inr (solved_B transfer_assertions ''transfer'',
          built_invalid (load_data plant recipe_B init_engine), None)"
    by (simp add: second_cycle_def e1 second_cycle_value)
  have ne: "feed_assertions \<noteq> transfer_assertions"
    by (simp add: feed_assertions_def transfer_assertions_def)
  from ne show ?thesis
    by (simp add: first_cycle_value s2 engine_of_def returned_def result_of_def solved_B_def
          mkstep_def)
qed

text \<open>
  After its first loop, \<open>build_constraints\<close> does not read \<open>assigned_resources\<close>:
  the loops over the steps, the transport handlers and the objective carry the field
  along unchanged.
\<close>

lemma with_ar_steps_loop:
  "steps_loop (e\<lparr>assigned_resources := a\<rparr>) im steps =
     (case steps_loop e im steps of
        Inl err \<Rightarrow> Inl err
      | Inr (e', im') \<Rightarrow> Inr (e'\<lparr>assigned_resources := a\<rparr>, im'))"
proof (induction e im steps rule: steps_loop.induct)
  case (1 e im)
  then show ?case by simp
next
  case (2 e im st steps)
  show ?case
  proof (cases "eligibility (cap_list e) st")
    case (Inl err)
    then show ?thesis by simp
  next
    case (Inr r)
    obtain valid invalid where r: "r = (valid, invalid)" by (cases r)
    have comm: "e\<lparr>assigned_resources := a, valid_mapping := vm, step_vars := sv, solver := sl\<rparr> =
        e\<lparr>valid_mapping := vm, step_vars := sv, solver := sl, assigned_resources := a\<rparr>"
      for vm sv sl
      by (cases e) simp
    from "2.IH"[OF Inr[unfolded r] refl] Inr r show ?thesis by (simp add: comm)
  qed
qed

lemma link_ar [simp]: "link (e\<lparr>assigned_resources := a\<rparr>) tv nb keep = link e tv nb keep"
  by (simp add: link_def)

lemma add_assertion_ar [simp]:
  "add_assertion c (e\<lparr>assigned_resources := a\<rparr>) = (add_assertion c e)\<lparr>assigned_resources := a\<rparr>"
  by (simp add: add_assertion_def)

lemma add_assertion_lookup [simp]:
  "step_vars (add_assertion c e) = step_vars e" "valid_mapping (add_assertion c e) = valid_mapping e"
  "step_ids (add_assertion c e) = step_ids e"
  by (simp_all add: add_assertion_def)

lemma with_ar_same_resource_loop:
  "same_resource_loop (e\<lparr>assigned_resources := a\<rparr>) sid nb cids =
     map_sum id (\<lambda>e'. e'\<lparr>assigned_resources := a\<rparr>) (same_resource_loop e sid nb cids)"
proof (induction e sid nb cids rule: same_resource_loop.induct)
  case (1 e step_id nb)
  then show ?case by simp
next
  case (2 e step_id nb cid cids)
  show ?case
  proof (cases "map_of (step_vars e) (step_id, cid)")
    case None
    then show ?thesis by simp
  next
    case (Some tv)
    show ?thesis
    proof (cases "link e tv nb (\<lambda>c. before_colons c = before_colons cid)")
      case (Inl err)
      with Some show ?thesis by simp
    next
      case (Inr c)
      from "2.IH"[OF Some Inr] Some Inr show ?thesis by simp
    qed
  qed
qed

lemma with_ar_transfer_side:
  "transfer_side (e\<lparr>assigned_resources := a\<rparr>) tv r nb =
     map_sum id (\<lambda>e'. e'\<lparr>assigned_resources := a\<rparr>) (transfer_side e tv r nb)"
  by (simp add: transfer_side_def split: option.splits sum.splits)

lemma transfer_side_lookup:
  "transfer_side e tv r nb = Inr e' \<Longrightarrow> step_vars e' = step_vars e"
  by (auto simp: transfer_side_def split: option.splits sum.splits if_splits)

lemma with_ar_transfer_loop:
  "transfer_loop (e\<lparr>assigned_resources := a\<rparr>) sid p n cids =
     map_sum id (\<lambda>e'. e'\<lparr>assigned_resources := a\<rparr>) (transfer_loop e sid p n cids)"
proof (induction e sid p n cids rule: transfer_loop.induct)
  case (1 e step_id prev_step next_step)
  then show ?case by simp
next
  case (2 e step_id prev_step next_step cid cids)
  show ?case
  proof (cases "map_of (step_vars e) (step_id, cid)")
    case None
    then show ?thesis by simp
  next
    case (Some tv)
    show ?thesis
    proof (cases "transfer_side e tv (before_colons cid) prev_step")
      case (Inl err)
      with Some show ?thesis by (simp add: with_ar_transfer_side)
    next
      case e1: (Inr e1)
      show ?thesis
      proof (cases "transfer_side e1 tv (before_colons cid) next_step")
        case (Inl err)
        with Some e1 show ?thesis by (simp add: with_ar_transfer_side)
      next
        case e2: (Inr e2)
        from "2.IH"[OF Some e1 e2] Some e1 e2 show ?thesis
          by (simp add: with_ar_transfer_side)
      qed
    qed
  qed
qed

lemma with_ar_handlers:
  "handle_feed_mode (e\<lparr>assigned_resources := a\<rparr>) sid ids =
     map_sum id (\<lambda>e'. e'\<lparr>assigned_resources := a\<rparr>) (handle_feed_mode e sid ids)"
  "handle_discharge_mode (e\<lparr>assigned_resources := a\<rparr>) sid ids =
     map_sum id (\<lambda>e'. e'\<lparr>assigned_resources := a\<rparr>) (handle_discharge_mode e sid ids)"
  "handle_transfer_mode (e\<lparr>assigned_resources := a\<rparr>) sid ids =
     map_sum id (\<lambda>e'. e'\<lparr>assigned_resources := a\<rparr>) (handle_transfer_mode e sid ids)"
  by (simp_all add: handle_feed_mode_def handle_discharge_mode_def handle_transfer_mode_def
        with_ar_same_resource_loop with_ar_transfer_loop Let_def split: option.splits)

lemma with_ar_transport_loop:
  "transport_loop (e\<lparr>assigned_resources := a\<rparr>) steps =
     map_sum id (\<lambda>e'. e'\<lparr>assigned_resources := a\<rparr>) (transport_loop e steps)"
proof (induction e steps rule: transport_loop.induct)
  case (1 e)
  then show ?case by simp
next
  case (2 e st steps)
  show ?case
  proof (cases "step_type st \<in> set TRANSPORT_TYPES \<and> transport_mode st \<noteq> None")
    case False
    with 2 show ?thesis by auto
  next
    case True
    let ?h = "(if transport_mode st = Some ''feed''
                 then handle_feed_mode e (ID st) (step_ids e)
               else if transport_mode st = Some ''discharge''
                 then handle_discharge_mode e (ID st) (step_ids e)
               else if transport_mode st = Some ''transfer''
                 then handle_transfer_mode e (ID st) (step_ids e)
               else Inr e)"
    show ?thesis
    proof (cases ?h)
      case (Inl err)
      with True show ?thesis by (auto simp: with_ar_handlers split: if_splits)
    next
      case (Inr e1)
      from "2.IH"(1)[OF True Inr] True Inr show ?thesis
        by (auto simp: with_ar_handlers split: if_splits)
    qed
  qed
qed

lemma set_objective_ar:
  "set_objective (e\<lparr>assigned_resources := a\<rparr>) = (set_objective e)\<lparr>assigned_resources := a\<rparr>"
  by (simp add: set_objective_def Let_def)

lemma build_constraints_ar:
  assumes "set_transport_modes (e\<lparr>assigned_resources := a\<rparr>) (rec_data e) =
           set_transport_modes e (rec_data e)"
  shows "build_constraints (e\<lparr>assigned_resources := a\<rparr>) =
     (case build_constraints e of
        Inl err \<Rightarrow> Inl err
      | Inr (eb, im) \<Rightarrow> Inr (eb\<lparr>assigned_resources := a\<rparr>, im))"
proof -
  let ?e1 = "e\<lparr> solver := \<lparr> assertions = [], objective = None \<rparr>,
                   step_vars := [], valid_mapping := [],
                   rec_data := set_transport_modes e (rec_data e) \<rparr>"
  have r: "(e\<lparr>assigned_resources := a\<rparr>)\<lparr> solver := \<lparr> assertions = [], objective = None \<rparr>,
                   step_vars := [], valid_mapping := [],
                   rec_data := set_transport_modes e (rec_data e) \<rparr> =
           ?e1\<lparr>assigned_resources := a\<rparr>"
    by simp
  show ?thesis
  proof (cases "steps_loop ?e1 [] (rec_data ?e1)")
    case (Inl err)
    then show ?thesis
      using assms by (simp add: build_constraints_def r with_ar_steps_loop)
  next
    case (Inr p)
    obtain e2 im where p: "p = (e2, im)" by (cases p)
    from steps_loop_fields[OF Inr[unfolded p]] have rd: "rec_data e2 = rec_data ?e1" by simp
    show ?thesis
    proof (cases "transport_loop e2 (rec_data e2)")
      case (Inl err)
      with Inr p show ?thesis
        using assms
        by (simp add: build_constraints_def r with_ar_steps_loop with_ar_transport_loop)
    next
      case e3: (Inr e3)
      with Inr p show ?thesis
        using assms
        by (simp add: build_constraints_def r with_ar_steps_loop with_ar_transport_loop
              set_objective_ar)
    qed
  qed
qed

lemma first_selected_ar [simp]:
  "first_selected (e\<lparr>assigned_resources := a\<rparr>) m sid cids = first_selected e m sid cids"
  by (induction cids) (simp_all split: option.splits sum.splits)

lemma assign_loop_ar [simp]:
  "assign_loop (e\<lparr>assigned_resources := a\<rparr>) m acc ids = assign_loop e m acc ids"
  by (induction ids arbitrary: acc) (simp_all split: option.splits sum.splits)

text \<open>Solving again the engine that \<open>solve\<close> returned gives the same result.\<close>

lemma solve_again:
  "solve check e = Inr (e', r) \<Longrightarrow> solve check e' = Inr (e', r)"
  by (auto simp: solve_def split: option.splits if_splits sum.splits)

text \<open>A first loop that changes no transport mode changes no step.\<close>

lemma set_transport_modes_fix:
  "map transport_mode (set_transport_modes e steps) = map transport_mode steps \<Longrightarrow>
   set_transport_modes e steps = steps"
proof -
  let ?f = "\<lambda>(step_idx, st).
            if 0 < step_idx \<and> int step_idx < int (length (step_ids e)) - 1
            then st\<lparr> transport_mode := determine_transport_mode e st step_idx \<rparr>
            else st\<lparr> transport_mode := None \<rparr>"
  have "map transport_mode (map ?f (enumerate n steps)) = map transport_mode steps \<Longrightarrow>
        map ?f (enumerate n steps) = steps" for n
  proof (induction steps arbitrary: n)
    case Nil
    then show ?case by simp
  next
    case (Cons st steps)
    from Cons.prems have h: "transport_mode (?f (n, st)) = transport_mode st"
      and t: "map transport_mode (map ?f (enumerate (Suc n) steps)) = map transport_mode steps"
      by simp_all
    from h have "?f (n, st) = st" by (auto split: if_splits)
    with Cons.IH[OF t] show ?case by simp
  qed
  then show "map transport_mode (set_transport_modes e steps) = map transport_mode steps \<Longrightarrow>
   set_transport_modes e steps = steps"
    by (simp add: set_transport_modes_def)
qed

text \<open>
  Between two engines with the same step identifiers, the mode of a step can differ
  only through stage 5, the analysis of the assigned resources.
\<close>

lemma mode_change_is_stage_5:
  assumes "step_ids e' = step_ids e"
    and "determine_transport_mode e' st i \<noteq> determine_transport_mode e st i"
  shows "explicit_mode st = None \<and> id_hint (ID st) = None \<and> param_hint st = None \<and>
         flow_mode (assigned_resource e' (ID st))
           (assigned_resource e' (step_ids e ! (i - 1)))
           (assigned_resource e' (step_ids e ! (i + 1))) \<noteq>
         flow_mode (assigned_resource e (ID st))
           (assigned_resource e (step_ids e ! (i - 1)))
           (assigned_resource e (step_ids e ! (i + 1)))"
  using assms
  by (auto simp: determine_transport_mode_def split: option.splits if_splits)

section \<open>A first cycle on a fresh engine\<close>

text \<open>Lookups in the dictionaries that \<open>build_constraints\<close> fills.\<close>

lemma map_of_dict_set:
  "map_of (dict_set k v d) k' = (if k' = k then Some v else map_of d k')"
  by (induction d) auto

lemma map_of_record_vars:
  "map_of (record_vars sid valid sv) k =
     (if fst k = sid \<and> snd k \<in> set valid then Some (Bool (var_name sid (snd k)))
      else map_of sv k)"
proof -
  have "map_of (foldl (\<lambda>d cid. dict_set (sid, cid) (Bool (var_name sid cid)) d) sv valid) k =
     (if fst k = sid \<and> snd k \<in> set valid then Some (Bool (var_name sid (snd k)))
      else map_of sv k)"
    by (induction valid arbitrary: sv) (auto simp: map_of_dict_set)
  then show ?thesis by (simp add: record_vars_def)
qed

text \<open>Every recorded variable is the variable named after its key.\<close>

lemma step_vars_shape_fold:
  assumes "\<And>k v. map_of sv k = Some v \<Longrightarrow> v = Bool (var_name (fst k) (snd k))"
    and "map_of (foldl (\<lambda>d (sid, v). record_vars sid v d) sv kvs) k = Some v"
  shows "v = Bool (var_name (fst k) (snd k))"
  using assms
proof (induction kvs arbitrary: sv)
  case Nil
  then show ?case by simp
next
  case (Cons kv kvs)
  obtain sid valid where kv: "kv = (sid, valid)" by (cases kv)
  show ?case
  proof (rule Cons.IH[of "record_vars sid valid sv"])
    fix k' v' assume "map_of (record_vars sid valid sv) k' = Some v'"
    then show "v' = Bool (var_name (fst k') (snd k'))"
      using Cons.prems(1)[of k' v'] by (auto simp: map_of_record_vars split: if_splits)
  next
    from Cons.prems(2) kv
    show "map_of (foldl (\<lambda>d (sid, v). record_vars sid v d) (record_vars sid valid sv) kvs) k = Some v"
      by simp
  qed
qed

lemma step_vars_present_fold:
  assumes "(sid, valid) \<in> set kvs" "cid \<in> set valid"
  shows "map_of (foldl (\<lambda>d (sid, v). record_vars sid v d) sv kvs) (sid, cid) \<noteq> None"
proof -
  have keep: "map_of sv k \<noteq> None \<Longrightarrow>
      map_of (foldl (\<lambda>d (sid, v). record_vars sid v d) sv kvs) k \<noteq> None" for sv k kvs
    by (induction kvs arbitrary: sv) (auto simp: map_of_record_vars)
  from assms(1) show ?thesis
  proof (induction kvs arbitrary: sv)
    case Nil
    then show ?case by simp
  next
    case (Cons kv kvs)
    show ?case
    proof (cases "kv = (sid, valid)")
      case True
      have "map_of (record_vars sid valid sv) (sid, cid) \<noteq> None"
        using assms(2) by (simp add: map_of_record_vars)
      from keep[OF this] True show ?thesis by simp
    next
      case False
      with Cons.prems have "(sid, valid) \<in> set kvs" by simp
      from Cons.IH[OF this] show ?thesis by (cases kv) simp
    qed
  qed
qed

text \<open>Looking up a key in a dictionary filled from a list with distinct keys.\<close>

lemma map_of_fold_dict_set:
  "map_of (foldl (\<lambda>d (k, v). dict_set k v d) d0 kvs) k =
     (case map_of (rev kvs) k of None \<Rightarrow> map_of d0 k | Some v \<Rightarrow> Some v)"
proof (induction kvs arbitrary: d0)
  case Nil
  then show ?case by simp
next
  case (Cons kv kvs)
  obtain k' v' where kv: "kv = (k', v')" by (cases kv)
  show ?case
    by (simp add: kv Cons.IH map_of_dict_set map_add_def split: option.splits)
qed

lemma lookup_fold_dict_set_distinct:
  assumes "distinct (map fst kvs)" "(k, v) \<in> set kvs"
  shows "map_of (foldl (\<lambda>d (k, v). dict_set k v d) [] kvs) k = Some v"
proof -
  from assms have "map_of (rev kvs) k = Some v"
    by (intro map_of_is_SomeI) (simp_all add: rev_map[symmetric])
  then show ?thesis by (simp add: map_of_fold_dict_set)
qed

text \<open>What a selected capability and a link constraint say about a model.\<close>

lemma model_evaluate_Inr:
  "model_evaluate m v = Inr b \<Longrightarrow> \<exists>n. v = Bool n \<and> map_of m n = Some b"
  by (cases v) (auto simp: model_evaluate_def split: option.splits)

lemma first_selected_Some:
  "first_selected e m sid cids = Inr (Some c) \<Longrightarrow>
   c \<in> set cids \<and> (\<exists>v. map_of (step_vars e) (sid, c) = Some v \<and> model_evaluate m v = Inr True)"
  by (induction cids) (auto split: option.splits sum.splits if_splits)

lemma assign_loop_lookup:
  "assign_loop e m acc ids = Inr assigned \<Longrightarrow> distinct ids \<Longrightarrow>
   map_of assigned sid =
     (if sid \<in> set ids
      then (case first_selected e m sid (dict_get (valid_mapping e) sid []) of
              Inr (Some c) \<Rightarrow> Some c | _ \<Rightarrow> map_of acc sid)
      else map_of acc sid)"
proof (induction ids arbitrary: acc)
  case Nil
  then show ?case by simp
next
  case (Cons step_id ids)
  let ?fs = "first_selected e m step_id (dict_get (valid_mapping e) step_id [])"
  from Cons.prems obtain r where r: "?fs = Inr r" by (cases ?fs) auto
  show ?case
  proof (cases r)
    case None
    with Cons.prems r have "assign_loop e m acc ids = Inr assigned" by simp
    from Cons.IH[OF this] Cons.prems(2) r None show ?thesis by auto
  next
    case (Some cid)
    with Cons.prems r have "assign_loop e m (dict_set step_id cid acc) ids = Inr assigned"
      by simp
    from Cons.IH[OF this] Cons.prems(2) r Some show ?thesis
      by (auto simp: map_of_dict_set split: sum.splits option.splits)
  qed
qed

lemma collect_vars_set:
  "collect_vars sv nb keep cids = Inr vs \<Longrightarrow>
   set vs = {v. \<exists>cid \<in> set cids. keep cid \<and> map_of sv (nb, cid) = Some v}"
proof (induction cids arbitrary: vs)
  case Nil
  then show ?case by simp
next
  case (Cons cid cids)
  show ?case
  proof (cases "keep cid")
    case False
    with Cons show ?thesis by auto
  next
    case True
    with Cons.prems obtain v where v: "map_of sv (nb, cid) = Some v"
      by (auto split: option.splits)
    with Cons.prems True obtain vs' where vs': "collect_vars sv nb keep cids = Inr vs'"
      and eq: "vs = v # vs'" by (auto split: sum.splits)
    from Cons.IH[OF vs'] eq v True show ?thesis by auto
  qed
qed

text \<open>A true transport variable has a true variable among those its link collected.\<close>

lemma link_true:
  assumes "link e tv nb keep = Inr c" "eval \<sigma> c" "eval \<sigma> tv"
  shows "\<exists>cid \<in> set (dict_get (valid_mapping e) nb []).
           keep cid \<and> (\<exists>v. map_of (step_vars e) (nb, cid) = Some v \<and> eval \<sigma> v)"
proof -
  from assms(1) obtain vs where
    cv: "collect_vars (step_vars e) nb keep (dict_get (valid_mapping e) nb []) = Inr vs"
    and c: "c = (if vs \<noteq> [] then Implies tv (Or vs) else Not_z3 tv)"
    by (auto simp: link_def split: sum.splits)
  from c assms(2,3) obtain v where "v \<in> set vs" "eval \<sigma> v"
    by (auto simp: list_ex_iff split: if_splits)
  with collect_vars_set[OF cv] show ?thesis by auto
qed

lemma grow_subset: "set (assertions (solver e)) \<subseteq> set (assertions (solver (grow cs e)))"
  by simp

lemma transfer_side_in:
  "transfer_side e tv r (Some nb) = Inr e' \<Longrightarrow> nb \<noteq> [] \<Longrightarrow>
   \<exists>c. link e tv nb (\<lambda>x. before_colons x \<noteq> r) = Inr c \<and> c \<in> set (assertions (solver e'))"
  by (auto simp: transfer_side_def add_assertion_def split: sum.splits)

lemma transfer_loop_in:
  "transfer_loop e sid (Some p) (Some n) cids = Inr e' \<Longrightarrow> p \<noteq> [] \<Longrightarrow> n \<noteq> [] \<Longrightarrow>
   cid \<in> set cids \<Longrightarrow>
   \<exists>tv c1 c2. map_of (step_vars e) (sid, cid) = Some tv \<and>
     link e tv p (\<lambda>x. before_colons x \<noteq> before_colons cid) = Inr c1 \<and>
     c1 \<in> set (assertions (solver e')) \<and>
     link e tv n (\<lambda>x. before_colons x \<noteq> before_colons cid) = Inr c2 \<and>
     c2 \<in> set (assertions (solver e'))"
proof (induction e sid "Some p :: string option" "Some n :: string option" cids
    rule: transfer_loop.induct)
  case (1 e step_id)
  then show ?case by simp
next
  case (2 e step_id c cids)
  from "2.prems"(1) obtain tv where tv: "map_of (step_vars e) (step_id, c) = Some tv"
    by (auto split: option.splits)
  from "2.prems"(1) tv obtain e1 where
    e1: "transfer_side e tv (before_colons c) (Some p) = Inr e1"
    by (auto split: sum.splits)
  from "2.prems"(1) tv e1 obtain e2 where
    e2: "transfer_side e1 tv (before_colons c) (Some n) = Inr e2"
    by (auto split: sum.splits)
  from "2.prems"(1) tv e1 e2 have tl: "transfer_loop e2 step_id (Some p) (Some n) cids = Inr e'"
    by simp
  from transfer_side_grow[OF e1] obtain g1 where g1: "e1 = grow g1 e" by blast
  from transfer_side_grow[OF e2] obtain g2 where g2: "e2 = grow g2 e1" by blast
  from transfer_loop_grow[OF tl] obtain g3 where g3: "e' = grow g3 e2" by blast
  show ?case
  proof (cases "cid = c")
    case True
    from transfer_side_in[OF e1 "2.prems"(2)] obtain c1 where
      c1: "link e tv p (\<lambda>x. before_colons x \<noteq> before_colons c) = Inr c1"
      "c1 \<in> set (assertions (solver e1))" by blast
    from transfer_side_in[OF e2 "2.prems"(3)] g1 obtain c2 where
      c2: "link e tv n (\<lambda>x. before_colons x \<noteq> before_colons c) = Inr c2"
      "c2 \<in> set (assertions (solver e2))" by auto
    from c1 c2 g2 g3 tv True show ?thesis by auto
  next
    case False
    with "2.prems"(4) have "cid \<in> set cids" by simp
    from "2.hyps"[OF tv e1 e2 tl "2.prems"(2,3) this] g1 g2 show ?thesis by auto
  qed
qed

lemma index_of_nth: "distinct ids \<Longrightarrow> i < length ids \<Longrightarrow> index_of (ids ! i) ids = Some i"
proof (induction ids arbitrary: i)
  case Nil
  then show ?case by simp
next
  case (Cons x ids)
  then show ?case by (cases i) auto
qed

lemma transport_loop_in:
  "transport_loop e steps = Inr e' \<Longrightarrow> st \<in> set steps \<Longrightarrow>
   step_type st \<in> set TRANSPORT_TYPES \<Longrightarrow> transport_mode st = Some ''transfer'' \<Longrightarrow>
   \<exists>cs eb. handle_transfer_mode (grow cs e) (ID st) (step_ids e) = Inr eb \<and>
     set (assertions (solver eb)) \<subseteq> set (assertions (solver e'))"
proof (induction e steps rule: transport_loop.induct)
  case (1 e)
  then show ?case by simp
next
  case (2 e s steps)
  let ?h = "(if transport_mode s = Some ''feed''
                 then handle_feed_mode e (ID s) (step_ids e)
               else if transport_mode s = Some ''discharge''
                 then handle_discharge_mode e (ID s) (step_ids e)
               else if transport_mode s = Some ''transfer''
                 then handle_transfer_mode e (ID s) (step_ids e)
               else Inr e)"
  show ?case
  proof (cases "step_type s \<in> set TRANSPORT_TYPES \<and> transport_mode s \<noteq> None")
    case False
    with "2.prems" have "st \<in> set steps" "transport_loop e steps = Inr e'" by auto
    from "2.IH"(2)[OF False this(2,1) "2.prems"(3,4)] show ?thesis .
  next
    case True
    from "2.prems"(1) True obtain e1 where e1: "?h = Inr e1" by (cases ?h) auto
    from "2.prems"(1) True e1 have tl: "transport_loop e1 steps = Inr e'" by simp
    have "\<exists>c1. e1 = grow c1 e"
    proof (cases "transport_mode s = Some ''feed'' \<or> transport_mode s = Some ''discharge''
        \<or> transport_mode s = Some ''transfer''")
      case True
      with e1 show ?thesis by (auto split: if_splits dest: handlers_grow)
    next
      case False
      with e1 have "e1 = grow [] e" by simp
      then show ?thesis ..
    qed
    then obtain c1 where c1: "e1 = grow c1 e" ..
    from transport_loop_grow[OF tl] obtain c2 where c2: "e' = grow c2 e1" by blast
    show ?thesis
    proof (cases "st = s")
      case True
      with e1 "2.prems"(4) have "handle_transfer_mode (grow [] e) (ID st) (step_ids e) = Inr e1"
        by simp
      moreover from c2 have "set (assertions (solver e1)) \<subseteq> set (assertions (solver e'))"
        by simp
      ultimately show ?thesis by blast
    next
      case False
      with "2.prems"(2) have "st \<in> set steps" by simp
      from "2.IH"(1)[OF True e1 tl this "2.prems"(3,4)] obtain cs eb where
        "handle_transfer_mode (grow cs e1) (ID st) (step_ids e1) = Inr eb"
        "set (assertions (solver eb)) \<subseteq> set (assertions (solver e'))" by blast
      with c1 show ?thesis by (auto intro!: exI[of _ "c1 @ cs"])
    qed
  qed
qed

text \<open>Two true variables of one step name the same capability.\<close>

lemma one_true:
  assumes sub: "set (step_constraints (vars_for sid valid)) \<subseteq> set A"
    and sat: "list_all (eval \<sigma>) A"
    and a: "a \<in> set valid" "\<sigma> (var_name sid a)"
    and b: "b \<in> set valid" "\<sigma> (var_name sid b)"
  shows "a = b"
proof -
  let ?vs = "vars_for sid valid"
  from a(1) have ne: "?vs \<noteq> []" by (auto simp: vars_for_def)
  have "\<not> (eval \<sigma> x \<and> eval \<sigma> y)" if "(x, y) \<in> set (pairs ?vs)" for x y
  proof -
    from that ne have "Not_z3 (And x y) \<in> set (step_constraints ?vs)"
      by (force simp: step_constraints_def)
    with sub have "Not_z3 (And x y) \<in> set A" by blast
    with sat have "eval \<sigma> (Not_z3 (And x y))" unfolding list_all_iff by blast
    then show ?thesis by simp
  qed
  then have le: "length (filter (eval \<sigma>) ?vs) \<le> 1"
    by (intro pairs_exclusive_count) auto
  from a b have "Bool (var_name sid a) \<in> set (filter (eval \<sigma>) ?vs)"
    "Bool (var_name sid b) \<in> set (filter (eval \<sigma>) ?vs)"
    by (auto simp: vars_for_def)
  with le have "Bool (var_name sid a) = Bool (var_name sid b)"
    by (cases "filter (eval \<sigma>) ?vs") auto
  then show ?thesis by (simp add: var_name_def)
qed

lemma steps_loop_eligible:
  "steps_loop e im steps = Inr (e', im') \<Longrightarrow> st \<in> set steps \<Longrightarrow>
   \<exists>valid invalid. eligibility (cap_list e) st = Inr (valid, invalid)"
proof -
  assume a: "steps_loop e im steps = Inr (e', im')" and st: "st \<in> set steps"
  show ?thesis
  proof (cases "eligibility (cap_list e) st")
    case (Inl e0)
    with st have "\<exists>st \<in> set steps. \<exists>e0. eligibility (cap_list e) st = Inl e0" by blast
    from steps_loop_raises[OF this, of im] a show ?thesis by auto
  next
    case (Inr r)
    then show ?thesis by (cases r) auto
  qed
qed

lemma build_constraints_eligible:
  assumes "build_constraints e = Inr (eb, im)" "st \<in> set (rec_data e)"
  shows "eligibility (cap_list e) st = Inr (valid_of (cap_list e) st, invalid_of (cap_list e) st)"
proof -
  let ?e1 = "e\<lparr> solver := \<lparr> assertions = [], objective = None \<rparr>,
                   step_vars := [], valid_mapping := [],
                   rec_data := set_transport_modes e (rec_data e) \<rparr>"
  from assms(1) obtain e2 where sl: "steps_loop ?e1 [] (rec_data ?e1) = Inr (e2, im)"
    by (cases "steps_loop ?e1 [] (rec_data ?e1)")
       (auto simp: build_constraints_def Let_def split: sum.splits)
  have "map (eligibility (cap_list e)) (set_transport_modes e (rec_data e)) =
        map (eligibility (cap_list e)) (rec_data e)"
    by (rule map_set_transport_modes) simp
  with assms(2) have "eligibility (cap_list e) st \<in>
      set (map (eligibility (cap_list e)) (set_transport_modes e (rec_data e)))"
    by force
  then obtain st' where st': "st' \<in> set (set_transport_modes e (rec_data e))"
    "eligibility (cap_list e) st' = eligibility (cap_list e) st" by (auto simp: image_iff)
  from steps_loop_eligible[OF sl, of st'] st' show ?thesis
    by (auto simp: valid_of_def invalid_of_def)
qed

lemma link_built:
  "step_vars e' = step_vars e \<Longrightarrow> valid_mapping e' = valid_mapping e \<Longrightarrow>
   link e' tv nb keep = link e tv nb keep"
  by (simp add: link_def)

lemma set_transport_modes_nth:
  "i < length steps \<Longrightarrow>
   set_transport_modes e steps ! i =
     (if 0 < i \<and> int i < int (length (step_ids e)) - 1
      then (steps ! i)\<lparr> transport_mode := determine_transport_mode e (steps ! i) i \<rparr>
      else (steps ! i)\<lparr> transport_mode := None \<rparr>)"
  by (simp add: set_transport_modes_def nth_enumerate_eq)

lemma length_set_transport_modes [simp]:
  "length (set_transport_modes e steps) = length steps"
  by (simp add: set_transport_modes_def)

text \<open>
  The constraints a transfer step contributes: each of its variables is linked to the
  preceding and to the following step.
\<close>

lemma build_constraints_transfer_links:
  assumes b: "build_constraints e = Inr (eb, im)"
    and ids: "step_ids e = map ID (rec_data e)" "distinct (step_ids e)" "[] \<notin> set (step_ids e)"
    and i: "0 < i" "i + 1 < length (step_ids e)"
    and ty: "step_type (rec_data e ! i) \<in> set TRANSPORT_TYPES"
    and md: "transport_mode (rec_data eb ! i) = Some ''transfer''"
    and c: "c \<in> set (valid_of (cap_list e) (rec_data e ! i))"
  shows "\<exists>tv c1 c2. map_of (step_vars eb) (step_ids e ! i, c) = Some tv \<and>
     link eb tv (step_ids e ! (i - 1)) (\<lambda>x. before_colons x \<noteq> before_colons c) = Inr c1 \<and>
     c1 \<in> set (assertions (solver eb)) \<and>
     link eb tv (step_ids e ! (i + 1)) (\<lambda>x. before_colons x \<noteq> before_colons c) = Inr c2 \<and>
     c2 \<in> set (assertions (solver eb))"
proof -
  let ?e1 = "e\<lparr> solver := \<lparr> assertions = [], objective = None \<rparr>,
                   step_vars := [], valid_mapping := [],
                   rec_data := set_transport_modes e (rec_data e) \<rparr>"
  let ?sid = "step_ids e ! i"
  from b obtain e2 where sl: "steps_loop ?e1 [] (rec_data ?e1) = Inr (e2, im)"
    by (cases "steps_loop ?e1 [] (rec_data ?e1)")
       (auto simp: build_constraints_def Let_def split: sum.splits)
  from b sl obtain e3 where tl: "transport_loop e2 (rec_data e2) = Inr e3"
    and eb: "eb = set_objective e3"
    by (cases "transport_loop e2 (rec_data e2)") (auto simp: build_constraints_def Let_def)
  from transport_loop_grow[OF tl] obtain g where g: "e3 = grow g e2" by blast
  note f2 = steps_loop_fields[OF sl]
  note fb = build_constraints_fields[OF b]
  have len: "i < length (rec_data e)" using i ids(1) by simp
  have rd2: "rec_data e2 = rec_data eb" using f2 fb(5) by simp
  let ?st = "rec_data eb ! i"
  have st_in: "?st \<in> set (rec_data e2)" using rd2 fb(5) len by simp
  have st_eq: "ID ?st = ?sid" "step_type ?st = step_type (rec_data e ! i)"
    using fb(5) len ids(1) by (simp_all add: set_transport_modes_nth step_type_def)
  from transport_loop_in[OF tl st_in _ md] st_eq ty obtain cs ebh where
    h: "handle_transfer_mode (grow cs e2) ?sid (step_ids e2) = Inr ebh"
    and sub: "set (assertions (solver ebh)) \<subseteq> set (assertions (solver e3))"
    by auto
  have ids2: "step_ids e2 = step_ids e" using f2 by simp
  have ix: "index_of ?sid (step_ids e) = Some i"
    using ids(2) i by (intro index_of_nth) simp_all
  have pn: "step_ids e ! (i - 1) \<noteq> []" "step_ids e ! (i + 1) \<noteq> []"
    using ids(3) i by (metis Suc_lessD add.commute less_imp_diff_less nth_mem plus_1_eq_Suc,
                       metis nth_mem)
  have vm: "valid_mapping e2 = valid_mapping eb" "step_vars e2 = step_vars eb"
    using eb g by simp_all
  have look: "map_of (valid_mapping eb) ?sid = Some (valid_of (cap_list e) (rec_data e ! i))"
    unfolding fb(6)
  proof (rule lookup_fold_dict_set_distinct)
    show "distinct (map fst (map (\<lambda>st. (ID st, valid_of (cap_list e) st)) (rec_data e)))"
      using ids(1,2) by (simp add: comp_def)
    show "(?sid, valid_of (cap_list e) (rec_data e ! i)) \<in>
        set (map (\<lambda>st. (ID st, valid_of (cap_list e) st)) (rec_data e))"
      using len ids(1) by (auto simp: image_iff intro!: bexI[of _ "rec_data e ! i"])
  qed
  from h ix i ids2 vm look
  have "transfer_loop (grow cs e2) ?sid (Some (step_ids e ! (i - 1)))
          (Some (step_ids e ! (i + 1))) (valid_of (cap_list e) (rec_data e ! i)) = Inr ebh"
    by (simp add: handle_transfer_mode_def Let_def dict_get_def)
  from transfer_loop_in[OF this pn c] obtain tv c1 c2 where
    r: "map_of (step_vars (grow cs e2)) (?sid, c) = Some tv"
       "link (grow cs e2) tv (step_ids e ! (i - 1))
          (\<lambda>x. before_colons x \<noteq> before_colons c) = Inr c1"
       "c1 \<in> set (assertions (solver ebh))"
       "link (grow cs e2) tv (step_ids e ! (i + 1))
          (\<lambda>x. before_colons x \<noteq> before_colons c) = Inr c2"
       "c2 \<in> set (assertions (solver ebh))" by blast
  have lk: "link eb tv nb keep = link (grow cs e2) tv nb keep" for tv nb keep
    by (rule link_built) (simp_all add: vm)
  have sv: "map_of (step_vars eb) (?sid, c) = Some tv" using r(1) vm by simp
  have s3: "set (assertions (solver ebh)) \<subseteq> set (assertions (solver eb))"
    using sub eb by simp
  show ?thesis
  proof (intro exI conjI)
    show "map_of (step_vars eb) (?sid, c) = Some tv" by (rule sv)
    show "link eb tv (step_ids e ! (i - 1)) (\<lambda>x. before_colons x \<noteq> before_colons c) = Inr c1"
      using r(2) by (simp only: lk)
    show "c1 \<in> set (assertions (solver eb))" using r(3) s3 by blast
    show "link eb tv (step_ids e ! (i + 1)) (\<lambda>x. before_colons x \<noteq> before_colons c) = Inr c2"
      using r(4) by (simp only: lk)
    show "c2 \<in> set (assertions (solver eb))" using r(5) s3 by blast
  qed
qed

lemma built_valid_lookup:
  assumes b: "build_constraints e = Inr (eb, im)"
    and ids: "step_ids e = map ID (rec_data e)" "distinct (step_ids e)"
    and j: "j < length (step_ids e)"
  shows "dict_get (valid_mapping eb) (step_ids e ! j) [] = valid_of (cap_list e) (rec_data e ! j)"
proof -
  have len: "j < length (rec_data e)" using j ids(1) by simp
  have "map_of (valid_mapping eb) (step_ids e ! j) = Some (valid_of (cap_list e) (rec_data e ! j))"
    unfolding build_constraints_fields(6)[OF b]
  proof (rule lookup_fold_dict_set_distinct)
    show "distinct (map fst (map (\<lambda>st. (ID st, valid_of (cap_list e) st)) (rec_data e)))"
      using ids by (simp add: comp_def)
    show "(step_ids e ! j, valid_of (cap_list e) (rec_data e ! j)) \<in>
        set (map (\<lambda>st. (ID st, valid_of (cap_list e) st)) (rec_data e))"
      using len ids(1) by (auto simp: image_iff intro!: bexI[of _ "rec_data e ! j"])
  qed
  then show ?thesis by (simp add: dict_get_def)
qed

lemma built_step_vars_shape:
  assumes "build_constraints e = Inr (eb, im)" "map_of (step_vars eb) k = Some v"
  shows "v = Bool (var_name (fst k) (snd k))"
proof (rule step_vars_shape_fold)
  show "map_of (foldl (\<lambda>d (sid, v). record_vars sid v d) []
          (map (\<lambda>st. (ID st, valid_of (cap_list e) st)) (rec_data e))) k = Some v"
    using assms(2) unfolding build_constraints_fields(7)[OF assms(1)] .
qed simp

text \<open>
  The capability a model selects for a step: it is valid for the step and its variable
  is true in the model.
\<close>

lemma selected_true:
  assumes b: "build_constraints e = Inr (eb, im)"
    and ids: "step_ids e = map ID (rec_data e)" "distinct (step_ids e)"
    and j: "j < length (step_ids e)"
    and al: "assign_loop eb m [] (step_ids e) = Inr assigned"
    and p: "map_of assigned (step_ids e ! j) = Some p"
  shows "p \<in> set (valid_of (cap_list e) (rec_data e ! j)) \<and>
         map_of (step_vars eb) (step_ids e ! j, p) = Some (Bool (var_name (step_ids e ! j) p)) \<and>
         assignment_of m (var_name (step_ids e ! j) p)"
proof -
  let ?sid = "step_ids e ! j"
  from assign_loop_lookup[OF al ids(2), of ?sid] p j
  have "first_selected eb m ?sid (dict_get (valid_mapping eb) ?sid []) = Inr (Some p)"
    by (auto split: sum.splits option.splits)
  from first_selected_Some[OF this] built_valid_lookup[OF b ids j]
  obtain v where pv: "p \<in> set (valid_of (cap_list e) (rec_data e ! j))"
    and v: "map_of (step_vars eb) (?sid, p) = Some v" and t: "model_evaluate m v = Inr True"
    by auto
  from built_step_vars_shape[OF b v] have sh: "v = Bool (var_name ?sid p)" by simp
  from model_evaluate_Inr[OF t] sh have "assignment_of m (var_name ?sid p)"
    by (auto simp: assignment_of_def)
  with pv v sh show ?thesis by simp
qed

lemma assigned_neighbour_differs:
  assumes b: "build_constraints e = Inr (eb, im)"
    and ids: "step_ids e = map ID (rec_data e)" "distinct (step_ids e)" "[] \<notin> set (step_ids e)"
    and i: "0 < i" "i + 1 < length (step_ids e)"
    and ty: "step_type (rec_data e ! i) \<in> set TRANSPORT_TYPES"
    and md: "transport_mode (rec_data eb ! i) = Some ''transfer''"
    and sat: "satisfies (assignment_of m) (solver eb)"
    and al: "assign_loop eb m [] (step_ids e) = Inr assigned"
    and c: "map_of assigned (step_ids e ! i) = Some c"
    and j: "j = i - 1 \<or> j = i + 1"
    and p: "map_of assigned (step_ids e ! j) = Some p"
  shows "before_colons p \<noteq> before_colons c"
proof -
  let ?\<sigma> = "assignment_of m"
  let ?nb = "step_ids e ! j"
  have ji: "j < length (step_ids e)" "i < length (step_ids e)" using i j by auto
  from selected_true[OF b ids(1,2) ji(2) al c]
  have cv: "c \<in> set (valid_of (cap_list e) (rec_data e ! i))"
    and ctv: "map_of (step_vars eb) (step_ids e ! i, c) = Some (Bool (var_name (step_ids e ! i) c))"
    and ct: "?\<sigma> (var_name (step_ids e ! i) c)" by simp_all
  from selected_true[OF b ids(1,2) ji(1) al p]
  have pv: "p \<in> set (valid_of (cap_list e) (rec_data e ! j))"
    and pt: "?\<sigma> (var_name ?nb p)" by simp_all
  from build_constraints_transfer_links[OF b ids i ty md cv] ctv j
  obtain cj where lk: "link eb (Bool (var_name (step_ids e ! i) c)) ?nb
        (\<lambda>x. before_colons x \<noteq> before_colons c) = Inr cj"
    and cj: "cj \<in> set (assertions (solver eb))" by auto
  from cj sat have "eval ?\<sigma> cj" by (auto simp: satisfies_def list_all_iff)
  from link_true[OF lk this] ct built_valid_lookup[OF b ids(1,2) ji(1)]
  obtain c' v' where c': "c' \<in> set (valid_of (cap_list e) (rec_data e ! j))"
    "before_colons c' \<noteq> before_colons c"
    "map_of (step_vars eb) (?nb, c') = Some v'" "eval ?\<sigma> v'" by auto
  from built_step_vars_shape[OF b c'(3)] c'(4) have c't: "?\<sigma> (var_name ?nb c')" by simp
  have stj: "rec_data e ! j \<in> set (rec_data e)" using ji(1) ids(1) by simp
  have idj: "ID (rec_data e ! j) = ?nb" using ji(1) ids(1) by simp
  from step_constraints_in[OF b stj build_constraints_eligible[OF b stj]] idj
  have sub: "set (step_constraints (vars_for ?nb (valid_of (cap_list e) (rec_data e ! j))))
      \<subseteq> set (assertions (solver eb))" by simp
  from sat have "list_all (eval ?\<sigma>) (assertions (solver eb))" by (simp add: satisfies_def)
  from one_true[OF sub this c'(1) c't pv pt] c'(2) show ?thesis by simp
qed

lemma mode_change_reaches_stage_5:
  assumes "step_ids e' = step_ids e"
    and "determine_transport_mode e' st i \<noteq> determine_transport_mode e st i"
  shows "0 < i \<and> int i < int (length (step_ids e)) - 1 \<and> step_type st \<in> set TRANSPORT_TYPES \<and>
         explicit_mode st = None \<and> id_hint (ID st) = None \<and> param_hint st = None"
  using assms
  by (auto simp: determine_transport_mode_def split: option.splits if_splits)

lemma determine_stage_5:
  assumes "0 < i" "int i < int (length (step_ids e)) - 1" "step_type st \<in> set TRANSPORT_TYPES"
    "explicit_mode st = None" "id_hint (ID st) = None" "param_hint st = None"
  shows "determine_transport_mode e st i =
     (case flow_mode (assigned_resource e (ID st))
             (assigned_resource e (step_ids e ! (i - 1)))
             (assigned_resource e (step_ids e ! (i + 1))) of
        Some mode \<Rightarrow> Some mode | None \<Rightarrow> Some ''transfer'')"
  using assms by (simp add: determine_transport_mode_def)

lemma flow_mode_differs:
  "(cur \<noteq> [] \<and> prev \<noteq> [] \<and> next \<noteq> [] \<longrightarrow> prev \<noteq> cur \<and> next \<noteq> cur) \<Longrightarrow>
   (case flow_mode cur prev next of Some mode \<Rightarrow> Some mode | None \<Rightarrow> Some ''transfer'')
     = Some ''transfer''"
  by (auto simp: flow_mode_def)

text \<open>
  On an engine without assigned resources, with distinct non-empty step identifiers and
  an oracle whose model satisfies the assertions, the second build resolves every
  transport mode as the first did: a step that the first pass took as a transfer step
  is assigned a resource different from both neighbours.
\<close>

lemma fresh_cycle_modes_kept:
  assumes cy: "cycle check e = Inr (e1, im1, r1)"
    and fresh: "assigned_resources e = []"
    and ids: "step_ids e = map ID (rec_data e)" "distinct (step_ids e)" "[] \<notin> set (step_ids e)"
    and sound: "\<forall>m. r1 = Some m \<longrightarrow> satisfies (assignment_of m) (solver e1)"
  shows "modes_kept e1"
proof -
  from cy obtain eb where b: "build_constraints e = Inr (eb, im1)"
    and s: "solve check eb = Inr (e1, r1)"
    by (auto simp: cycle_def split: sum.splits)
  note fb = build_constraints_fields[OF b]
  note sc = solve_changes[OF s]
  from sc have e1: "e1 = eb\<lparr> assigned_resources := assigned_resources e1 \<rparr>" by blast
  have rd: "rec_data e1 = set_transport_modes e (rec_data e)" using fb(5) by (subst e1) simp
  have sid: "step_ids e1 = step_ids e" using fb(2) by (subst e1) simp
  have slv: "solver e1 = solver eb" by (subst e1) simp
  have fr: "assigned_resource e x = []" for x
    by (simp add: assigned_resource_def fresh dict_get_def)
  have main: "determine_transport_mode e1 st i = determine_transport_mode e st i"
    if i: "0 < i" "int i < int (length (step_ids e)) - 1" and st: "st = rec_data e ! i" for i st
  proof (rule ccontr)
    assume ne: "determine_transport_mode e1 st i \<noteq> determine_transport_mode e st i"
    note r5 = mode_change_reaches_stage_5[OF sid ne]
    have il: "i + 1 < length (step_ids e)" "i < length (rec_data e)" using i ids(1) by auto
    have idst: "ID st = step_ids e ! i" using st il ids(1) by simp
    from r5 have old: "determine_transport_mode e st i = Some ''transfer''"
      by (simp add: determine_stage_5 fr flow_mode_def)
    have md: "transport_mode (rec_data eb ! i) = Some ''transfer''"
      using fb(5) il i old st by (simp add: set_transport_modes_nth)
    let ?cur = "assigned_resource e1 (step_ids e ! i)"
    let ?prev = "assigned_resource e1 (step_ids e ! (i - 1))"
    let ?next = "assigned_resource e1 (step_ids e ! (i + 1))"
    have diff: "?prev \<noteq> ?cur \<and> ?next \<noteq> ?cur" if ne3: "?cur \<noteq> []" "?prev \<noteq> []" "?next \<noteq> []"
    proof -
      have na: "assigned_resources e1 \<noteq> []"
        using ne3(1) by (auto simp: assigned_resource_def dict_get_def)
      have neb: "e1 \<noteq> eb" using na fb(3) fresh by auto
      from sc neb have "r1 \<noteq> None" by blast
      then obtain m where m: "r1 = Some m" by (cases r1) simp_all
      from sc m have ck: "check (solver eb) = Some m" by simp
      from s neb have al: "assign_loop eb m [] (step_ids eb) = Inr (assigned_resources e1)"
        by (auto simp: solve_def ck split: if_splits sum.splits)
      from sound m slv have sat: "satisfies (assignment_of m) (solver eb)" by simp
      from al fb(2) have al': "assign_loop eb m [] (step_ids e) = Inr (assigned_resources e1)"
        by simp
      from ne3 obtain c p n where
        c: "map_of (assigned_resources e1) (step_ids e ! i) = Some c" "?cur = before_colons c"
        and p: "map_of (assigned_resources e1) (step_ids e ! (i - 1)) = Some p"
          "?prev = before_colons p"
        and n: "map_of (assigned_resources e1) (step_ids e ! (i + 1)) = Some n"
          "?next = before_colons n"
        by (auto simp: assigned_resource_def dict_get_def split: option.splits)
      from r5 st have ty: "step_type (rec_data e ! i) \<in> set TRANSPORT_TYPES" by simp
      from assigned_neighbour_differs[OF b ids i(1) il(1) ty md sat al' c(1) _ p(1)]
        assigned_neighbour_differs[OF b ids i(1) il(1) ty md sat al' c(1) _ n(1)]
      show ?thesis using c(2) p(2) n(2) by simp
    qed
    from r5 have "determine_transport_mode e1 st i =
      (case flow_mode (assigned_resource e1 (ID st))
             (assigned_resource e1 (step_ids e1 ! (i - 1)))
             (assigned_resource e1 (step_ids e1 ! (i + 1))) of
        Some mode \<Rightarrow> Some mode | None \<Rightarrow> Some ''transfer'')"
      by (intro determine_stage_5) (simp_all add: sid)
    also have "\<dots> = Some ''transfer''"
      unfolding sid idst by (rule flow_mode_differs) (use diff in blast)
    finally show False using ne old by simp
  qed
  have "set_transport_modes e1 (set_transport_modes e (rec_data e)) =
        set_transport_modes e (rec_data e)"
  proof (rule nth_equalityI)
    show "length (set_transport_modes e1 (set_transport_modes e (rec_data e))) =
        length (set_transport_modes e (rec_data e))" by simp
  next
    fix i assume "i < length (set_transport_modes e1 (set_transport_modes e (rec_data e)))"
    then have il: "i < length (rec_data e)" by simp
    show "set_transport_modes e1 (set_transport_modes e (rec_data e)) ! i =
        set_transport_modes e (rec_data e) ! i"
    proof (cases "0 < i \<and> int i < int (length (step_ids e)) - 1")
      case False
      with il show ?thesis by (auto simp: set_transport_modes_nth sid)
    next
      case True
      let ?st = "rec_data e ! i"
      have "determine_transport_mode e1
              (?st\<lparr>transport_mode := determine_transport_mode e ?st i\<rparr>) i =
            determine_transport_mode e1 ?st i"
        by (rule determine_transport_mode_cong) simp_all
      also have "\<dots> = determine_transport_mode e ?st i"
        using True by (intro main) simp_all
      finally show ?thesis using il True by (simp add: set_transport_modes_nth sid)
    qed
  qed
  then show ?thesis by (simp add: modes_kept_def rd)
qed

section \<open>Repeating a cycle: the claim\<close>

text \<open>The first cycle on the fresh engine with the dosing step, evaluated.\<close>

lemma fresh_dosing_cycle:
  "cycle z3_check fresh_dosing = Inr (solved_dosing, built_invalid fresh_dosing, Some dosing_model)"
  by code_simp

text \<open>
  C9, amended: when a cycle has returned, a second cycle on the same engine yields, if
  it returns, the same invalid mapping, the same valid mapping and the same variables.
  It returns exactly what the first cycle returned, the same engine with the same
  constraint model and the same outcome, if and only if the second
  \<open>build_constraints\<close> gives every step the transport mode the first gave it. That is
  so when the first solve left \<open>assigned_resources\<close> as they were, when it reported
  unsat, and whenever the first cycle started without assigned resources, on distinct
  non-empty step identifiers, with a model that satisfies the assertions. Only a
  transport mode changed by the analysis of the assigned resources, which needs
  resources left by another recipe, makes the two cycles differ.
\<close>

theorem repeated_cycle:
  assumes "cycle check e = Inr (e1, im1, r1)"
  shows "(\<forall>e2 im2 r2. cycle check e1 = Inr (e2, im2, r2) \<longrightarrow>
            im2 = im1 \<and> valid_mapping e2 = valid_mapping e1 \<and> step_vars e2 = step_vars e1) \<and>
         (cycle check e1 = Inr (e1, im1, r1) \<longleftrightarrow> modes_kept e1) \<and>
         (assigned_resources e1 = assigned_resources e \<longrightarrow> modes_kept e1) \<and>
         (r1 = None \<longrightarrow> modes_kept e1) \<and>
         (assigned_resources e = [] \<and> step_ids e = map ID (rec_data e) \<and>
          distinct (step_ids e) \<and> [] \<notin> set (step_ids e) \<and>
          (\<forall>m. r1 = Some m \<longrightarrow> satisfies (assignment_of m) (solver e1))
            \<longrightarrow> modes_kept e1)"
proof -
  from assms obtain eb where b: "build_constraints e = Inr (eb, im1)"
    and s: "solve check eb = Inr (e1, r1)"
    by (auto simp: cycle_def split: sum.splits)
  note fb = build_constraints_fields[OF b]
  note sc = solve_changes[OF s]
  from sc have e1: "e1 = eb\<lparr> assigned_resources := assigned_resources e1 \<rparr>" by blast
  have rd: "rec_data e1 = rec_data eb" by (subst e1) simp
  have ids: "step_ids e1 = step_ids eb" by (subst e1) simp
  have idem: "set_transport_modes eb (rec_data eb) = rec_data eb"
    using fb(2,3,5) by (simp add: set_transport_modes_idem)
  have kept: "cycle check e1 = Inr (e1, im1, r1)" if "modes_kept e1"
  proof -
    from that have "set_transport_modes e1 (rec_data e1) = rec_data e1"
      by (simp add: modes_kept_def set_transport_modes_fix)
    with rd idem
    have "set_transport_modes (eb\<lparr>assigned_resources := assigned_resources e1\<rparr>) (rec_data eb) =
          set_transport_modes eb (rec_data eb)"
      using e1 by simp
    from build_constraints_ar[OF this] build_constraints_again[OF b] e1
    have "build_constraints e1 = Inr (e1, im1)" by simp
    with solve_again[OF s] show ?thesis by (simp add: cycle_def)
  qed
  have conv: "modes_kept e1" if "cycle check e1 = Inr (e1, im1, r1)"
  proof -
    from that obtain eb2 where b2: "build_constraints e1 = Inr (eb2, im1)"
      and s2: "solve check eb2 = Inr (e1, r1)"
      by (auto simp: cycle_def split: sum.splits)
    from solve_changes[OF s2] have "e1 = eb2\<lparr> assigned_resources := assigned_resources e1 \<rparr>"
      by blast
    then have "rec_data e1 = rec_data eb2" by (metis engine.select_convs(8) engine.surjective engine.update_convs(6))
    with build_constraints_fields(5)[OF b2] show ?thesis by (simp add: modes_kept_def)
  qed
  have same: "modes_kept e1" if "assigned_resources e1 = assigned_resources e"
  proof -
    from that fb(3) e1 have "e1 = eb" by simp
    with idem show ?thesis by (simp add: modes_kept_def)
  qed
  have unsat: "modes_kept e1" if "r1 = None"
  proof -
    from that sc have "e1 = eb" by blast
    with idem show ?thesis by (simp add: modes_kept_def)
  qed
  have elig: "im2 = im1 \<and> valid_mapping e2 = valid_mapping e1 \<and> step_vars e2 = step_vars e1"
    if "cycle check e1 = Inr (e2, im2, r2)" for e2 im2 r2
  proof -
    from that obtain eb2 where b2: "build_constraints e1 = Inr (eb2, im2)"
      and s2: "solve check eb2 = Inr (e2, r2)"
      by (auto simp: cycle_def split: sum.splits)
    note fb2 = build_constraints_fields[OF b2]
    from solve_changes[OF s2] have e2: "e2 = eb2\<lparr> assigned_resources := assigned_resources e2 \<rparr>"
      by blast
    have c1: "cap_list e1 = cap_list e" using fb(1) by (subst e1) simp
    have r1: "rec_data e1 = set_transport_modes e (rec_data e)" using fb(5) rd by simp
    have v1: "valid_mapping e1 = valid_mapping eb" and sv1: "step_vars e1 = step_vars eb"
      by (subst e1, simp)+
    have v2: "valid_mapping e2 = valid_mapping eb2" and sv2: "step_vars e2 = step_vars eb2"
      by (subst e2, simp)+
    have v: "map (\<lambda>st. (ID st, valid_of (cap_list e) st)) (set_transport_modes e (rec_data e)) =
        map (\<lambda>st. (ID st, valid_of (cap_list e) st)) (rec_data e)"
      by (rule map_set_transport_modes) (simp add: valid_of_def)
    have i: "map (\<lambda>st. (ID st, invalid_of (cap_list e) st)) (set_transport_modes e (rec_data e)) =
        map (\<lambda>st. (ID st, invalid_of (cap_list e) st)) (rec_data e)"
      by (rule map_set_transport_modes) (simp add: invalid_of_def)
    from fb(6,7,8) fb2(6,7,8) c1 r1 v i v1 sv1 v2 sv2 show ?thesis by simp
  qed
  have fresh: "modes_kept e1"
    if "assigned_resources e = [] \<and> step_ids e = map ID (rec_data e) \<and>
          distinct (step_ids e) \<and> [] \<notin> set (step_ids e) \<and>
          (\<forall>m. r1 = Some m \<longrightarrow> satisfies (assignment_of m) (solver e1))"
    using that by (intro fresh_cycle_modes_kept[OF assms]) blast+
  from kept conv same unsat elig fresh show ?thesis by blast
qed

theorem repeated_cycle_witness:
  "assigned_resources fresh_dosing = [] \<and>
   step_ids fresh_dosing = [''S1'', ''S2'', ''S3''] \<and>
   cycle z3_check fresh_dosing =
     Inr (solved_dosing, built_invalid fresh_dosing, Some dosing_model) \<and>
   satisfies (assignment_of dosing_model) (solver solved_dosing) \<and>
   map transport_mode (rec_data solved_dosing) = [None, Some ''transfer'', None] \<and>
   modes_kept solved_dosing \<and>
   cycle z3_check solved_dosing =
     Inr (solved_dosing, built_invalid fresh_dosing, Some dosing_model) \<and>
   cycle z3_check two_heat_steps =
     Inr (built two_heat_steps, built_invalid two_heat_steps, None) \<and>
   cycle z3_check (built two_heat_steps) =
     Inr (built two_heat_steps, built_invalid two_heat_steps, None)"
proof -
  have a: "assigned_resources fresh_dosing = []" by code_simp
  have i: "step_ids fresh_dosing = [''S1'', ''S2'', ''S3'']" by code_simp
  have j: "step_ids fresh_dosing = map ID (rec_data fresh_dosing)" by code_simp
  have s: "satisfies (assignment_of dosing_model) (solver solved_dosing)" by code_simp
  have t: "map transport_mode (rec_data solved_dosing) = [None, Some ''transfer'', None]"
    by code_simp
  have c: "cycle z3_check two_heat_steps =
     Inr (built two_heat_steps, built_invalid two_heat_steps, None)" by code_simp
  have d: "distinct (step_ids fresh_dosing)" "[] \<notin> set (step_ids fresh_dosing)"
    by (simp_all add: i)
  note r = repeated_cycle [OF fresh_dosing_cycle]
  from r a j d s have k: "modes_kept solved_dosing" by simp
  with r have e: "cycle z3_check solved_dosing =
     Inr (solved_dosing, built_invalid fresh_dosing, Some dosing_model)" by blast
  from repeated_cycle [OF c]
  have u: "cycle z3_check (built two_heat_steps) =
     Inr (built two_heat_steps, built_invalid two_heat_steps, None)" by blast
  from a i fresh_dosing_cycle s t k e c u show ?thesis by blast
qed

end
